theory Spec2Isabelle
  imports Main
begin

section \<open>Table-size selection: CheckPrimeNumber and FindBiggerPrimeNumber\<close>

text \<open>
  The C type \<open>int\<close> is a 32-bit two's complement integer. Values are modelled as
  mathematical integers; the only arithmetic that can leave the 32-bit range in the two
  functions below is the increment \<open>i++\<close> of \<open>FindBiggerPrimeNumber\<close>, which is
  undefined behaviour in C when \<open>i = INT_MAX\<close> and is modelled by the result \<open>None\<close>.
\<close>

definition INT_MAX :: int where
  "INT_MAX = 2147483647"

text \<open>
  The loop \<open>for (int i = 2; i <= sqrt(number); i++)\<close> of \<open>CheckPrimeNumber\<close>.
  The comparison is made in double precision; for \<open>0 \<le> number < 2^31\<close> and an integer
  \<open>i\<close> the correctly rounded square root satisfies \<open>i <= sqrt(number)\<close> exactly when
  \<open>i * i \<le> number\<close>, which is how the guard is written here.
\<close>

function CheckPrimeNumber_loop :: "int \<Rightarrow> int \<Rightarrow> bool" where
  "CheckPrimeNumber_loop number i =
     (if i * i \<le> number
      then (if number mod i = 0 then False else CheckPrimeNumber_loop number (i + 1))
      else True)"
  by pat_completeness auto
termination
proof (relation "measure (\<lambda>(number, i). nat (number + 1 - i))")
  show "wf (measure (\<lambda>(number, i). nat (number + 1 - i)))" by simp
next
  fix number i :: int
  assume a: "i * i \<le> number"
  have "i \<le> i * i"
  proof (cases "i \<le> 0")
    case True
    then have "0 \<le> i * i" by (simp add: mult_nonpos_nonpos)
    with True show ?thesis by linarith
  next
    case False
    then have "1 * i \<le> i * i" by (intro mult_right_mono) simp_all
    then show ?thesis by simp
  qed
  with a show "((number, i + 1), (number, i)) \<in> measure (\<lambda>(number, i). nat (number + 1 - i))"
    by simp
qed

declare CheckPrimeNumber_loop.simps [simp del]

definition CheckPrimeNumber :: "int \<Rightarrow> bool" where
  "CheckPrimeNumber number =
     (if number \<le> 1 then False
      else if number = 2 then True
      else CheckPrimeNumber_loop number 2)"

text \<open>
  The loop \<open>while (!isPrime) { i++; isPrime = CheckPrimeNumber(i); }\<close>. The increment
  of \<open>INT_MAX\<close> overflows: the result is \<open>None\<close>.
\<close>

function FindBiggerPrimeNumber_loop :: "int \<Rightarrow> int option" where
  "FindBiggerPrimeNumber_loop i =
     (if INT_MAX \<le> i then None
      else if CheckPrimeNumber (i + 1) then Some (i + 1)
      else FindBiggerPrimeNumber_loop (i + 1))"
  by pat_completeness auto
termination
  by (relation "measure (\<lambda>i. nat (INT_MAX - i))") auto

declare FindBiggerPrimeNumber_loop.simps [simp del]

definition FindBiggerPrimeNumber :: "int \<Rightarrow> int option" where
  "FindBiggerPrimeNumber number =
     (if number < 13 then Some 13 else FindBiggerPrimeNumber_loop number)"

text \<open>Primality, as the specification uses the word: no divisor strictly between 1 and p.\<close>

definition is_prime :: "int \<Rightarrow> bool" where
  "is_prime p \<longleftrightarrow> 1 < p \<and> (\<forall>d\<in>{2..<p}. \<not> d dvd p)"

text \<open>The same notion on natural numbers, for the number-theoretic lemmas.\<close>

definition nprime :: "nat \<Rightarrow> bool" where
  "nprime p \<longleftrightarrow> 1 < p \<and> (\<forall>d. d dvd p \<longrightarrow> d = 1 \<or> d = p)"

text \<open>Modular exponentiation by repeated squaring, used to check a primality certificate.\<close>

fun modpow :: "nat \<Rightarrow> nat \<Rightarrow> nat \<Rightarrow> nat" where
  "modpow a e n =
     (if e = 0 then 1 mod n
      else let h = modpow a (e div 2) n
           in if even e then h * h mod n else h * h mod n * a mod n)"

declare modpow.simps [simp del]

section \<open>The generic containers: data model\<close>

text \<open>
  The status codes of \<open>Defs.h\<close>.
\<close>

datatype status =
    success | Memory_Problem | Invalid_input | no_PhyChar | planet_exist | fail
  | Phychar_exist | file_read_fail | planet_not_exist | jerry_not_exist | failure
  | no_element | element_exist | failure_reading

definition INT_MIN :: int where
  "INT_MIN = - 2147483648"

text \<open>
  Conventions of the embedding.
  \<^item> A pointer is an \<open>option\<close>: \<open>None\<close> is \<open>NULL\<close>. An \<open>Element\<close> (\<open>void *\<close>) that is
    not \<open>NULL\<close> is a value of the element type.
  \<^item> Memory that holds objects of one type is a list of cells; an address is an index,
    \<open>malloc\<close> takes the next index and \<open>free\<close> empties the cell. Reading or writing
    through \<open>NULL\<close>, a freed cell or an index out of range is undefined behaviour in C:
    the operation then has no result (\<open>None\<close>).
  \<^item> The outcome of every \<open>malloc\<close> call is an input of the model: a boolean that is
    \<open>True\<close> when the allocation succeeds.
  \<^item> The callbacks supplied by the caller are parameters. \<open>CopyFunction\<close> returns the
    copy or \<open>NULL\<close>; \<open>EqualFunction\<close> and \<open>TransformIntoNumberFunction\<close> are pure;
    \<open>FreeFunction\<close> and \<open>PrintFunction\<close> act on the memory outside the container (the
    world \<open>'w\<close>), may fail to return, and their status result is never used by the code.
\<close>

type_synonym addr = nat

type_synonym 'a CopyFunction = "'a \<Rightarrow> 'a option"
type_synonym ('a, 'w) FreeFunction = "'a \<Rightarrow> 'w \<Rightarrow> 'w option"
type_synonym ('a, 'w) PrintFunction = "'a \<Rightarrow> 'w \<Rightarrow> 'w option"
type_synonym ('a, 'b) EqualFunction = "'a \<Rightarrow> 'b \<Rightarrow> bool"
type_synonym 'a TransformIntoNumberFunction = "'a \<Rightarrow> int"

definition load :: "'x option list \<Rightarrow> addr \<Rightarrow> 'x option" where
  "load mem a = (if a < length mem then mem ! a else None)"

subsection \<open>LinkedList\<close>

text \<open>\<open>struct node_s\<close>; the fields \<open>next\<close> and \<open>prev\<close> are named \<open>next_node\<close> and \<open>prev_node\<close>.\<close>

record 'a node_s =
  next_node :: "addr option"
  prev_node :: "addr option"
  data :: 'a

text \<open>
  \<open>struct LinkedList_s\<close>. The field \<open>equal\<close> is named \<open>equalElement\<close>. Nodes are
  allocated by the static \<open>createNode\<close> only and are reachable only through their list, so
  the memory of a list's nodes is kept with the list, in \<open>nodes\<close>.
\<close>

record ('a, 'b, 'w) LinkedList_s =
  head :: "addr option"
  tail :: "addr option"
  count_elements :: int
  copyElement :: "'a CopyFunction"
  freeElement :: "('a, 'w) FreeFunction"
  printElement :: "('a, 'w) PrintFunction"
  equalElement :: "('a, 'b) EqualFunction"
  nodes :: "'a node_s option list"

text \<open>
  The memory in which the list structures live, together with the world the callbacks
  act on. A \<open>LinkedList\<close> handle is an address into \<open>lists\<close>.
\<close>

record ('a, 'b, 'w) heap =
  lists :: "('a, 'b, 'w) LinkedList_s option list"
  world :: 'w

text \<open>Reads and writes of node fields through a pointer.\<close>

definition get_node :: "'a node_s option list \<Rightarrow> addr option \<Rightarrow> 'a node_s option" where
  "get_node mem p = (case p of None \<Rightarrow> None | Some a \<Rightarrow> load mem a)"

definition set_next :: "'a node_s option list \<Rightarrow> addr option \<Rightarrow> addr option \<Rightarrow> 'a node_s option list option" where
  "set_next mem p v =
     (case p of None \<Rightarrow> None
      | Some a \<Rightarrow> (case load mem a of None \<Rightarrow> None
                   | Some n \<Rightarrow> Some (mem[a := Some (n\<lparr>next_node := v\<rparr>)])))"

definition set_prev :: "'a node_s option list \<Rightarrow> addr option \<Rightarrow> addr option \<Rightarrow> 'a node_s option list option" where
  "set_prev mem p v =
     (case p of None \<Rightarrow> None
      | Some a \<Rightarrow> (case load mem a of None \<Rightarrow> None
                   | Some n \<Rightarrow> Some (mem[a := Some (n\<lparr>prev_node := v\<rparr>)])))"

text \<open>\<open>createLinkedList\<close>; \<open>m\<close> is the outcome of the \<open>malloc\<close> of the list structure.\<close>

definition createLinkedList ::
  "bool \<Rightarrow> 'a CopyFunction option \<Rightarrow> ('a, 'w) FreeFunction option \<Rightarrow>
   ('a, 'w) PrintFunction option \<Rightarrow> ('a, 'b) EqualFunction option \<Rightarrow>
   ('a, 'b, 'w) heap \<Rightarrow> addr option \<times> ('a, 'b, 'w) heap" where
  "createLinkedList m copyFunc freeFunc printFunc equalFunc h =
     (case (copyFunc, freeFunc, printFunc, equalFunc) of
        (Some cf, Some ff, Some pf, Some ef) \<Rightarrow>
          if \<not> m then (None, h)
          else (Some (length (lists h)),
                h\<lparr>lists := lists h @
                  [Some \<lparr>head = None, tail = None, count_elements = 0, copyElement = cf,
                         freeElement = ff, printElement = pf, equalElement = ef, nodes = []\<rparr>]\<rparr>)
      | _ \<Rightarrow> (None, h))"

text \<open>The loop of \<open>destroyList\<close>: free the data of every node, then the node.\<close>

partial_function (option) destroyList_loop ::
  "('a, 'b, 'w) LinkedList_s \<Rightarrow> 'w \<Rightarrow> addr option \<Rightarrow> (('a, 'b, 'w) LinkedList_s \<times> 'w) option" where
  "destroyList_loop l w cur =
     (case cur of
        None \<Rightarrow> Some (l, w)
      | Some c \<Rightarrow>
          (case load (nodes l) c of
             None \<Rightarrow> None
           | Some n \<Rightarrow>
               (case freeElement l (data n) w of
                  None \<Rightarrow> None
                | Some w' \<Rightarrow> destroyList_loop (l\<lparr>nodes := (nodes l)[c := None]\<rparr>) w' (next_node n))))"

definition destroyList :: "addr option \<Rightarrow> ('a, 'b, 'w) heap \<Rightarrow> (status \<times> ('a, 'b, 'w) heap) option" where
  "destroyList list h =
     (case list of
        None \<Rightarrow> Some (Invalid_input, h)
      | Some p \<Rightarrow>
          (case load (lists h) p of
             None \<Rightarrow> None
           | Some l \<Rightarrow>
               (case destroyList_loop l (world h) (head l) of
                  None \<Rightarrow> None
                | Some (l', w') \<Rightarrow> Some (success, h\<lparr>lists := (lists h)[p := None], world := w'\<rparr>))))"

text \<open>
  The static \<open>createNode\<close>; \<open>m\<close> is the outcome of the \<open>malloc\<close> of the node. The node
  that is freed again when the copy fails leaves the memory as it was.
\<close>

definition createNode ::
  "bool \<Rightarrow> 'a option \<Rightarrow> ('a, 'b, 'w) LinkedList_s \<Rightarrow> addr option \<times> ('a, 'b, 'w) LinkedList_s" where
  "createNode m dat l =
     (case dat of
        None \<Rightarrow> (None, l)
      | Some d \<Rightarrow>
          if \<not> m then (None, l)
          else (case copyElement l d of
                  None \<Rightarrow> (None, l)
                | Some c \<Rightarrow>
                    (Some (length (nodes l)),
                     l\<lparr>nodes := nodes l @ [Some \<lparr>next_node = None, prev_node = None, data = c\<rparr>]\<rparr>)))"

text \<open>The body of \<open>appendNode\<close>, on the list structure the handle points to.\<close>

definition appendNode_s ::
  "bool \<Rightarrow> ('a, 'b, 'w) LinkedList_s \<Rightarrow> 'a \<Rightarrow> (status \<times> ('a, 'b, 'w) LinkedList_s) option" where
  "appendNode_s m l element =
     (case head l of
        None \<Rightarrow>
          (case createNode m (Some element) l of
             (nd, l1) \<Rightarrow>
               let l2 = l1\<lparr>head := nd\<rparr> in
               if head l2 = None then Some (Memory_Problem, l2)
               else
                 (case set_next (nodes l2) (head l2) None of None \<Rightarrow> None | Some mem1 \<Rightarrow>
                  case set_prev mem1 (head l2) None of None \<Rightarrow> None | Some mem2 \<Rightarrow>
                  let l3 = l2\<lparr>nodes := mem2, count_elements := 1\<rparr>;
                      l4 = l3\<lparr>tail := head l3\<rparr> in
                  case set_next (nodes l4) (tail l4) None of None \<Rightarrow> None | Some mem3 \<Rightarrow>
                  case set_prev mem3 (tail l4) None of None \<Rightarrow> None | Some mem4 \<Rightarrow>
                  Some (success, l4\<lparr>nodes := mem4\<rparr>)))
      | Some _ \<Rightarrow>
          (case createNode m (Some element) l of
             (nd, l1) \<Rightarrow>
               (case set_next (nodes l1) (tail l1) nd of None \<Rightarrow> None | Some mem1 \<Rightarrow>
                let l2 = l1\<lparr>nodes := mem1\<rparr> in
                case get_node (nodes l2) (tail l2) of None \<Rightarrow> None | Some t \<Rightarrow>
                if next_node t = None then Some (Memory_Problem, l2)
                else
                  (case set_next (nodes l2) (next_node t) None of None \<Rightarrow> None | Some mem2 \<Rightarrow>
                   case set_prev mem2 (next_node t) (tail l2) of None \<Rightarrow> None | Some mem3 \<Rightarrow>
                   let l3 = l2\<lparr>nodes := mem3, tail := next_node t\<rparr> in
                   if count_elements l3 = INT_MAX then None
                   else Some (success, l3\<lparr>count_elements := count_elements l3 + 1\<rparr>)))))"

definition appendNode ::
  "bool \<Rightarrow> addr option \<Rightarrow> 'a option \<Rightarrow> ('a, 'b, 'w) heap \<Rightarrow> (status \<times> ('a, 'b, 'w) heap) option" where
  "appendNode m list element h =
     (case (list, element) of
        (Some p, Some e) \<Rightarrow>
          (case load (lists h) p of
             None \<Rightarrow> None
           | Some l \<Rightarrow>
               (case appendNode_s m l e of
                  None \<Rightarrow> None
                | Some (st, l') \<Rightarrow> Some (st, h\<lparr>lists := (lists h)[p := Some l']\<rparr>)))
      | _ \<Rightarrow> Some (Invalid_input, h))"

text \<open>
  \<open>deleteNode\<close>: the statements executed for the first node \<open>curr\<close> (at address \<open>c\<close>)
  whose data matches.
\<close>

definition deleteNode_unlink ::
  "('a, 'b, 'w) LinkedList_s \<Rightarrow> 'w \<Rightarrow> addr \<Rightarrow> (status \<times> ('a, 'b, 'w) LinkedList_s \<times> 'w) option" where
  "deleteNode_unlink l w c =
     (case load (nodes l) c of None \<Rightarrow> None | Some n \<Rightarrow>
      case
        (if Some c = head l then
           (if next_node n \<noteq> None then
              (case set_prev (nodes l) (next_node n) None of None \<Rightarrow> None
               | Some mem1 \<Rightarrow> Some (l\<lparr>nodes := mem1, head := next_node n\<rparr>))
            else Some l)
         else if Some c = tail l then
           (case set_next (nodes l) (prev_node n) None of None \<Rightarrow> None
            | Some mem1 \<Rightarrow> Some (l\<lparr>nodes := mem1, tail := prev_node n\<rparr>))
         else
           (case set_next (nodes l) (prev_node n) (next_node n) of None \<Rightarrow> None
            | Some mem1 \<Rightarrow>
                (case load mem1 c of None \<Rightarrow> None
                 | Some n1 \<Rightarrow>
                     (case set_prev mem1 (next_node n1) (prev_node n1) of None \<Rightarrow> None
                      | Some mem2 \<Rightarrow> Some (l\<lparr>nodes := mem2\<rparr>)))))
      of None \<Rightarrow> None | Some l1 \<Rightarrow>
      case load (nodes l1) c of None \<Rightarrow> None | Some n2 \<Rightarrow>
      case freeElement l1 (data n2) w of None \<Rightarrow> None | Some w1 \<Rightarrow>
      let l2 = l1\<lparr>nodes := (nodes l1)[c := None]\<rparr> in
      if count_elements l2 = INT_MIN then None
      else
        let l3 = l2\<lparr>count_elements := count_elements l2 - 1\<rparr> in
        Some (success,
              if count_elements l3 = 0 then l3\<lparr>head := None, tail := None\<rparr> else l3,
              w1))"

partial_function (option) deleteNode_loop ::
  "('a, 'b, 'w) LinkedList_s \<Rightarrow> 'w \<Rightarrow> 'b \<Rightarrow> addr option \<Rightarrow>
   (status \<times> ('a, 'b, 'w) LinkedList_s \<times> 'w) option" where
  "deleteNode_loop l w PrameterToEqual cur =
     (case cur of
        None \<Rightarrow> Some (no_element, l, w)
      | Some c \<Rightarrow>
          (case load (nodes l) c of
             None \<Rightarrow> None
           | Some n \<Rightarrow>
               if equalElement l (data n) PrameterToEqual then deleteNode_unlink l w c
               else deleteNode_loop l w PrameterToEqual (next_node n)))"

definition deleteNode ::
  "addr option \<Rightarrow> 'b option \<Rightarrow> ('a, 'b, 'w) heap \<Rightarrow> (status \<times> ('a, 'b, 'w) heap) option" where
  "deleteNode list PrameterToEqual h =
     (case (list, PrameterToEqual) of
        (Some p, Some e) \<Rightarrow>
          (case load (lists h) p of
             None \<Rightarrow> None
           | Some l \<Rightarrow>
               (case deleteNode_loop l (world h) e (head l) of
                  None \<Rightarrow> None
                | Some (st, l', w') \<Rightarrow>
                    Some (st, h\<lparr>lists := (lists h)[p := Some l'], world := w'\<rparr>)))
      | _ \<Rightarrow> Some (Invalid_input, h))"

partial_function (option) displayList_loop ::
  "('a, 'b, 'w) LinkedList_s \<Rightarrow> 'w \<Rightarrow> addr option \<Rightarrow> 'w option" where
  "displayList_loop l w cur =
     (case cur of
        None \<Rightarrow> Some w
      | Some c \<Rightarrow>
          (case load (nodes l) c of
             None \<Rightarrow> None
           | Some n \<Rightarrow>
               (case printElement l (data n) w of
                  None \<Rightarrow> None
                | Some w' \<Rightarrow> displayList_loop l w' (next_node n))))"

definition displayList :: "addr option \<Rightarrow> ('a, 'b, 'w) heap \<Rightarrow> (status \<times> ('a, 'b, 'w) heap) option" where
  "displayList list h =
     (case list of
        None \<Rightarrow> Some (Invalid_input, h)
      | Some p \<Rightarrow>
          (case load (lists h) p of
             None \<Rightarrow> None
           | Some l \<Rightarrow>
               (case displayList_loop l (world h) (head l) of
                  None \<Rightarrow> None
                | Some w' \<Rightarrow> Some (success, h\<lparr>world := w'\<rparr>))))"

text \<open>The loop \<open>for (int i = 1; i < index; i++) curr = curr->next\<close>, by the number of steps.\<close>

fun getDataByIndex_walk :: "'a node_s option list \<Rightarrow> addr option \<Rightarrow> nat \<Rightarrow> addr option option" where
  "getDataByIndex_walk mem cur 0 = Some cur"
| "getDataByIndex_walk mem cur (Suc k) =
     (case get_node mem cur of
        None \<Rightarrow> None
      | Some n \<Rightarrow> getDataByIndex_walk mem (next_node n) k)"

text \<open>
  \<open>getDataByIndex\<close>, \<open>getLengthList\<close> and \<open>searchByKeyInList\<close> do not change the memory;
  their result is the returned value.
\<close>

definition getDataByIndex :: "addr option \<Rightarrow> int \<Rightarrow> ('a, 'b, 'w) heap \<Rightarrow> 'a option option" where
  "getDataByIndex list index h =
     (case list of
        None \<Rightarrow> Some None
      | Some p \<Rightarrow>
          (case load (lists h) p of
             None \<Rightarrow> None
           | Some l \<Rightarrow>
               if index < 1 \<or> index > count_elements l then Some None
               else
                 (case getDataByIndex_walk (nodes l) (head l) (nat (index - 1)) of
                    None \<Rightarrow> None
                  | Some cur \<Rightarrow>
                      (case get_node (nodes l) cur of
                         None \<Rightarrow> None
                       | Some n \<Rightarrow> Some (copyElement l (data n))))))"

definition getLengthList :: "addr option \<Rightarrow> ('a, 'b, 'w) heap \<Rightarrow> int option" where
  "getLengthList list h =
     (case list of
        None \<Rightarrow> Some (- 1)
      | Some p \<Rightarrow>
          (case load (lists h) p of
             None \<Rightarrow> None
           | Some l \<Rightarrow> Some (count_elements l)))"

partial_function (option) searchByKeyInList_loop ::
  "('a, 'b, 'w) LinkedList_s \<Rightarrow> 'b \<Rightarrow> addr option \<Rightarrow> 'a option option" where
  "searchByKeyInList_loop l key cur =
     (case cur of
        None \<Rightarrow> Some None
      | Some c \<Rightarrow>
          (case load (nodes l) c of
             None \<Rightarrow> None
           | Some n \<Rightarrow>
               if equalElement l (data n) key then Some (copyElement l (data n))
               else searchByKeyInList_loop l key (next_node n)))"

definition searchByKeyInList :: "addr option \<Rightarrow> 'b option \<Rightarrow> ('a, 'b, 'w) heap \<Rightarrow> 'a option option" where
  "searchByKeyInList list key h =
     (case (list, key) of
        (Some p, Some k) \<Rightarrow>
          (case load (lists h) p of
             None \<Rightarrow> None
           | Some l \<Rightarrow> searchByKeyInList_loop l k (head l))
      | _ \<Rightarrow> Some None)"

subsection \<open>KeyValuePair\<close>

text \<open>
  \<open>struct KeyValuePair_s\<close>; the fields carry the prefix \<open>kv_\<close>. A pair is written once,
  by \<open>createKeyValuePair\<close>, and is owned by the one node that points to it, so the node
  holds the pair itself.
\<close>

record ('k, 'v, 'w) KeyValuePair_s =
  kv_key :: 'k
  kv_value :: 'v
  kv_copyKey :: "'k CopyFunction"
  kv_copyValue :: "'v CopyFunction"
  kv_freeKey :: "('k, 'w) FreeFunction"
  kv_freeValue :: "('v, 'w) FreeFunction"
  kv_printKey :: "('k, 'w) PrintFunction"
  kv_printValue :: "('v, 'w) PrintFunction"
  kv_equalKey :: "('k, 'k) EqualFunction"

text \<open>\<open>createKeyValuePair\<close>; \<open>m\<close> is the outcome of the \<open>malloc\<close> of the pair.\<close>

definition createKeyValuePair ::
  "bool \<Rightarrow> 'k option \<Rightarrow> 'v option \<Rightarrow>
   'k CopyFunction option \<Rightarrow> ('k, 'w) FreeFunction option \<Rightarrow> ('k, 'w) PrintFunction option \<Rightarrow>
   'v CopyFunction option \<Rightarrow> ('v, 'w) FreeFunction option \<Rightarrow> ('v, 'w) PrintFunction option \<Rightarrow>
   ('k, 'k) EqualFunction option \<Rightarrow> 'w \<Rightarrow> (('k, 'v, 'w) KeyValuePair_s option \<times> 'w) option" where
  "createKeyValuePair m key val copyKey freeKey printKey copyValue freeValue printValue equalKey w =
     (case (key, val, copyKey, freeKey, printKey, equalKey, copyValue, freeValue, printValue) of
        (Some k, Some v, Some ck, Some fk, Some pk, Some ek, Some cv, Some fv, Some pv) \<Rightarrow>
          if \<not> m then Some (None, w)
          else
            (case ck k of
               None \<Rightarrow> Some (None, w)
             | Some k' \<Rightarrow>
                 (case cv v of
                    None \<Rightarrow> (case fk k' w of None \<Rightarrow> None | Some w' \<Rightarrow> Some (None, w'))
                  | Some v' \<Rightarrow>
                      Some (Some \<lparr>kv_key = k', kv_value = v', kv_copyKey = ck, kv_copyValue = cv,
                                  kv_freeKey = fk, kv_freeValue = fv, kv_printKey = pk,
                                  kv_printValue = pv, kv_equalKey = ek\<rparr>, w)))
      | _ \<Rightarrow> Some (None, w))"

definition destroyKeyValuePair ::
  "('k, 'v, 'w) KeyValuePair_s option \<Rightarrow> 'w \<Rightarrow> (status \<times> 'w) option" where
  "destroyKeyValuePair kvPair w =
     (case kvPair of
        None \<Rightarrow> Some (Invalid_input, w)
      | Some p \<Rightarrow>
          (case kv_freeKey p (kv_key p) w of
             None \<Rightarrow> None
           | Some w1 \<Rightarrow>
               (case kv_freeValue p (kv_value p) w1 of
                  None \<Rightarrow> None
                | Some w2 \<Rightarrow> Some (success, w2))))"

definition displayValue ::
  "('k, 'v, 'w) KeyValuePair_s option \<Rightarrow> 'w \<Rightarrow> (status \<times> 'w) option" where
  "displayValue kvPair w =
     (case kvPair of
        None \<Rightarrow> Some (Invalid_input, w)
      | Some p \<Rightarrow>
          (case kv_printValue p (kv_value p) w of
             None \<Rightarrow> None
           | Some w1 \<Rightarrow> Some (success, w1)))"

definition displayKey ::
  "('k, 'v, 'w) KeyValuePair_s option \<Rightarrow> 'w \<Rightarrow> (status \<times> 'w) option" where
  "displayKey kvPair w =
     (case kvPair of
        None \<Rightarrow> Some (Invalid_input, w)
      | Some p \<Rightarrow>
          (case kv_printKey p (kv_key p) w of
             None \<Rightarrow> None
           | Some w1 \<Rightarrow> Some (success, w1)))"

definition getValue :: "('k, 'v, 'w) KeyValuePair_s option \<Rightarrow> 'v option" where
  "getValue kvPair = (case kvPair of None \<Rightarrow> None | Some p \<Rightarrow> kv_copyValue p (kv_value p))"

definition getKey :: "('k, 'v, 'w) KeyValuePair_s option \<Rightarrow> 'k option" where
  "getKey kvPair = (case kvPair of None \<Rightarrow> None | Some p \<Rightarrow> kv_copyKey p (kv_key p))"

definition isEqualKey :: "('k, 'v, 'w) KeyValuePair_s option \<Rightarrow> 'k option \<Rightarrow> bool" where
  "isEqualKey kvPair key =
     (case (kvPair, key) of
        (Some p, Some k) \<Rightarrow> if kv_equalKey p (kv_key p) k = True then True else False
      | _ \<Rightarrow> False)"

subsection \<open>HashTable\<close>

text \<open>
  The static functions that \<open>createHashTable\<close> gives to the bucket lists. They take an
  \<open>Element\<close> that may be \<open>NULL\<close>.
\<close>

definition copyKeyValuePairs ::
  "('k, 'v, 'w) KeyValuePair_s option \<Rightarrow> ('k, 'v, 'w) KeyValuePair_s option" where
  "copyKeyValuePairs element = (case element of None \<Rightarrow> None | Some keyValuePair \<Rightarrow> Some keyValuePair)"

definition PrintKeyValPair ::
  "('k, 'v, 'w) KeyValuePair_s option \<Rightarrow> 'w \<Rightarrow> (status \<times> 'w) option" where
  "PrintKeyValPair element w =
     (case element of
        None \<Rightarrow> Some (Invalid_input, w)
      | Some p \<Rightarrow>
          (case displayKey (Some p) w of
             None \<Rightarrow> None
           | Some (_, w1) \<Rightarrow>
               (case displayValue (Some p) w1 of
                  None \<Rightarrow> None
                | Some (_, w2) \<Rightarrow> Some (success, w2))))"

definition equalForInnerList :: "('k, 'v, 'w) KeyValuePair_s option \<Rightarrow> 'k option \<Rightarrow> bool" where
  "equalForInnerList kvp key =
     (if kvp = None \<or> key = None then False
      else if isEqualKey kvp key = False then False else True)"

definition destroyKeyValuePairhash ::
  "('k, 'v, 'w) KeyValuePair_s option \<Rightarrow> 'w \<Rightarrow> (status \<times> 'w) option" where
  "destroyKeyValuePairhash element w =
     (case element of
        None \<Rightarrow> Some (Invalid_input, w)
      | Some p \<Rightarrow>
          (case destroyKeyValuePair (Some p) w of
             None \<Rightarrow> None
           | Some (freeStatus, w1) \<Rightarrow>
               Some (if freeStatus = Invalid_input then Invalid_input else success, w1)))"

text \<open>
  A function that returns a status and is used as a \<open>FreeFunction\<close> or \<open>PrintFunction\<close>
  callback: the caller of the callback drops the status.
\<close>

definition as_callback :: "('a option \<Rightarrow> 'w \<Rightarrow> (status \<times> 'w) option) \<Rightarrow> 'a \<Rightarrow> 'w \<Rightarrow> 'w option" where
  "as_callback f x w = map_option snd (f (Some x) w)"

text \<open>
  \<open>struct hashTable_s\<close>. \<open>table\<close> is the array of list handles, as far as its cells
  have been written; the table structure itself is never changed after its creation.
\<close>

record ('k, 'v, 'w) hashTable_s =
  table :: "addr list"
  tableSize :: int
  numberOfElements :: int
  transIntoNumber :: "'k TransformIntoNumberFunction"
  copyKey :: "'k CopyFunction"
  freeKey :: "('k, 'w) FreeFunction"
  printKey :: "('k, 'w) PrintFunction"
  copyValue :: "'v CopyFunction"
  freeValue :: "('v, 'w) FreeFunction"
  printValue :: "('v, 'w) PrintFunction"
  equalKey :: "('k, 'k) EqualFunction"

type_synonym ('k, 'v, 'w) hheap = "(('k, 'v, 'w) KeyValuePair_s, 'k, 'w) heap"

text \<open>
  The loop of \<open>createHashTable\<close> that creates one list per cell: \<open>r\<close> cells remain,
  \<open>i\<close> is the index of the next one, \<open>m_list i\<close> the outcome of the \<open>malloc\<close> of its
  list. When a list cannot be created the source frees the array and the table structure
  and returns \<open>NULL\<close>; the lists created so far are not destroyed.
\<close>

fun createHashTable_loop ::
  "(nat \<Rightarrow> bool) \<Rightarrow> nat \<Rightarrow> nat \<Rightarrow> addr list \<Rightarrow> ('k, 'v, 'w) hheap \<Rightarrow>
   addr list option \<times> ('k, 'v, 'w) hheap" where
  "createHashTable_loop m_list 0 i tbl h = (Some tbl, h)"
| "createHashTable_loop m_list (Suc r) i tbl h =
     (case createLinkedList (m_list i)
             (Some (\<lambda>e. copyKeyValuePairs (Some e)))
             (Some (as_callback destroyKeyValuePairhash))
             (Some (as_callback PrintKeyValPair))
             (Some (\<lambda>kvp key. equalForInnerList (Some kvp) (Some key))) h of
        (None, h') \<Rightarrow> (None, h')
      | (Some a, h') \<Rightarrow> createHashTable_loop m_list r (Suc i) (tbl @ [a]) h')"

text \<open>
  The size that \<open>createHashTable\<close> requests for the array,
  \<open>(HashTable->tableSize) * sizeof(LinkedList)\<close>: the \<open>int\<close> is converted to \<open>size_t\<close> and the
  product is taken in \<open>size_t\<close>, 64 bits wide, with the 8 bytes of a \<open>LinkedList\<close>, which is
  a pointer. A negative \<open>tableSize\<close> wraps around to a request of almost \<open>2^64\<close> bytes.
\<close>

definition array_bytes :: "int \<Rightarrow> int" where
  "array_bytes n = ((n mod 2 ^ 64) * 8) mod 2 ^ 64"

definition PTRDIFF_MAX :: int where
  "PTRDIFF_MAX = 9223372036854775807"

text \<open>
  The \<open>malloc\<close> of the array: no block is larger than \<open>PTRDIFF_MAX\<close> bytes, so a larger
  request fails; \<open>m\<close> is the outcome of a request that the allocator may satisfy.
\<close>

definition array_malloc :: "bool \<Rightarrow> int \<Rightarrow> bool" where
  "array_malloc m n \<longleftrightarrow> m \<and> array_bytes n \<le> PTRDIFF_MAX"

text \<open>
  \<open>createHashTable\<close>; \<open>m_struct\<close> is the outcome of the \<open>malloc\<close> of the table structure and
  \<open>m_array\<close> that of the array of \<open>tableSize\<close> list handles, when its size can be allocated
  at all.
\<close>

definition createHashTable ::
  "bool \<Rightarrow> bool \<Rightarrow> (nat \<Rightarrow> bool) \<Rightarrow>
   'k CopyFunction option \<Rightarrow> ('k, 'w) FreeFunction option \<Rightarrow> ('k, 'w) PrintFunction option \<Rightarrow>
   'v CopyFunction option \<Rightarrow> ('v, 'w) FreeFunction option \<Rightarrow> ('v, 'w) PrintFunction option \<Rightarrow>
   ('k, 'k) EqualFunction option \<Rightarrow> 'k TransformIntoNumberFunction option \<Rightarrow> int \<Rightarrow>
   ('k, 'v, 'w) hheap \<Rightarrow> ('k, 'v, 'w) hashTable_s option \<times> ('k, 'v, 'w) hheap" where
  "createHashTable m_struct m_array m_list copyKey' freeKey' printKey' copyValue' freeValue'
       printValue' equalKey' transformIntoNumber hashNumber h =
     (case (copyKey', freeKey', printKey', equalKey', transformIntoNumber,
            copyValue', freeValue', printValue') of
        (Some ck, Some fk, Some pk, Some ek, Some tr, Some cv, Some fv, Some pv) \<Rightarrow>
          if \<not> m_struct then (None, h)
          else if \<not> array_malloc m_array hashNumber then (None, h)
          else
            (case createHashTable_loop m_list (nat hashNumber) 0 [] h of
               (None, h') \<Rightarrow> (None, h')
             | (Some tbl, h') \<Rightarrow>
                 (Some \<lparr>table = tbl, tableSize = hashNumber, numberOfElements = 0,
                        transIntoNumber = tr, copyKey = ck, freeKey = fk, printKey = pk,
                        copyValue = cv, freeValue = fv, printValue = pv, equalKey = ek\<rparr>, h'))
      | _ \<Rightarrow> (None, h))"

text \<open>The loop of \<open>destroyHashTable\<close> over the cells \<open>table[i]\<close>, \<open>i < tableSize\<close>.\<close>

definition table_cell :: "('k, 'v, 'w) hashTable_s \<Rightarrow> int \<Rightarrow> addr option" where
  "table_cell t i = (if 0 \<le> i \<and> nat i < length (table t) then Some (table t ! nat i) else None)"

fun destroyHashTable_loop ::
  "('k, 'v, 'w) hashTable_s \<Rightarrow> nat \<Rightarrow> nat \<Rightarrow> ('k, 'v, 'w) hheap \<Rightarrow> ('k, 'v, 'w) hheap option" where
  "destroyHashTable_loop t 0 i h = Some h"
| "destroyHashTable_loop t (Suc r) i h =
     (case table_cell t (int i) of
        None \<Rightarrow> None
      | Some b \<Rightarrow>
          (case destroyList (Some b) h of
             None \<Rightarrow> None
           | Some (_, h') \<Rightarrow> destroyHashTable_loop t r (Suc i) h'))"

definition destroyHashTable ::
  "('k, 'v, 'w) hashTable_s option \<Rightarrow> ('k, 'v, 'w) hheap \<Rightarrow> (status \<times> ('k, 'v, 'w) hheap) option" where
  "destroyHashTable HashTable h =
     (case HashTable of
        None \<Rightarrow> Some (Invalid_input, h)
      | Some t \<Rightarrow>
          (case destroyHashTable_loop t (nat (tableSize t)) 0 h of
             None \<Rightarrow> None
           | Some h' \<Rightarrow> Some (success, h')))"

text \<open>
  The remainder operator \<open>%\<close> of C on \<open>int\<close>: the quotient is truncated towards zero, so
  the result has the sign of the dividend. A zero divisor and \<open>INT_MIN % -1\<close> are
  undefined.
\<close>

definition c_rem :: "int \<Rightarrow> int \<Rightarrow> int option" where
  "c_rem a b =
     (if b = 0 \<or> (a = INT_MIN \<and> b = - 1) then None
      else Some (sgn a * (\<bar>a\<bar> mod \<bar>b\<bar>)))"

text \<open>
  The two statements that open \<open>addToHashTable\<close>, \<open>lookupInHashTable\<close> and
  \<open>removeFromHashTable\<close>: \<open>key_num = transIntoNumber(key); index = key_num % tableSize\<close>,
  followed by the read of \<open>table[index]\<close>, which is undefined outside the array.
\<close>

definition bucket_of :: "('k, 'v, 'w) hashTable_s \<Rightarrow> 'k \<Rightarrow> addr option" where
  "bucket_of t key =
     (case c_rem (transIntoNumber t key) (tableSize t) of
        None \<Rightarrow> None
      | Some index \<Rightarrow> table_cell t index)"

text \<open>
  \<open>addToHashTable\<close>; \<open>m_pair\<close> and \<open>m_node\<close> are the outcomes of the \<open>malloc\<close> of the
  pair and of the list node.
\<close>

definition addToHashTable ::
  "bool \<Rightarrow> bool \<Rightarrow> ('k, 'v, 'w) hashTable_s option \<Rightarrow> 'k option \<Rightarrow> 'v option \<Rightarrow>
   ('k, 'v, 'w) hheap \<Rightarrow> (status \<times> ('k, 'v, 'w) hheap) option" where
  "addToHashTable m_pair m_node HashTable key val h =
     (case (HashTable, key, val) of
        (Some t, Some k, Some v) \<Rightarrow>
          (case bucket_of t k of
             None \<Rightarrow> None
           | Some b \<Rightarrow>
               (case searchByKeyInList (Some b) (Some k) h of
                  None \<Rightarrow> None
                | Some (Some result) \<Rightarrow> Some (element_exist, h)
                | Some None \<Rightarrow>
                    (case createKeyValuePair m_pair (Some k) (Some v)
                            (Some (copyKey t)) (Some (freeKey t)) (Some (printKey t))
                            (Some (copyValue t)) (Some (freeValue t)) (Some (printValue t))
                            (Some (equalKey t)) (world h) of
                       None \<Rightarrow> None
                     | Some (None, w') \<Rightarrow> Some (Memory_Problem, h\<lparr>world := w'\<rparr>)
                     | Some (Some new_key_value_pair, w') \<Rightarrow>
                         (case appendNode m_node (Some b) (Some new_key_value_pair)
                                 (h\<lparr>world := w'\<rparr>) of
                            None \<Rightarrow> None
                          | Some (appendResult, h') \<Rightarrow>
                              Some (if appendResult = success then success
                                    else if appendResult = Memory_Problem then Memory_Problem
                                    else Invalid_input, h')))))
      | _ \<Rightarrow> Some (Invalid_input, h))"

definition lookupInHashTable ::
  "('k, 'v, 'w) hashTable_s option \<Rightarrow> 'k option \<Rightarrow> ('k, 'v, 'w) hheap \<Rightarrow> 'v option option" where
  "lookupInHashTable HashTable key h =
     (case (HashTable, key) of
        (Some t, Some k) \<Rightarrow>
          (case bucket_of t k of
             None \<Rightarrow> None
           | Some b \<Rightarrow>
               (case searchByKeyInList (Some b) (Some k) h of
                  None \<Rightarrow> None
                | Some None \<Rightarrow> Some None
                | Some (Some element) \<Rightarrow> Some (getValue (Some element))))
      | _ \<Rightarrow> Some None)"

definition removeFromHashTable ::
  "('k, 'v, 'w) hashTable_s option \<Rightarrow> 'k option \<Rightarrow> ('k, 'v, 'w) hheap \<Rightarrow>
   (status \<times> ('k, 'v, 'w) hheap) option" where
  "removeFromHashTable HashTable key h =
     (case (HashTable, key) of
        (Some t, Some k) \<Rightarrow>
          (case bucket_of t k of
             None \<Rightarrow> None
           | Some b \<Rightarrow>
               (case deleteNode (Some b) (Some k) h of
                  None \<Rightarrow> None
                | Some (result, h') \<Rightarrow>
                    Some (if result = no_element then no_element
                          else if result = Invalid_input then Invalid_input
                          else success, h')))
      | _ \<Rightarrow> Some (Invalid_input, h))"

fun displayHashElements_loop ::
  "('k, 'v, 'w) hashTable_s \<Rightarrow> nat \<Rightarrow> nat \<Rightarrow> ('k, 'v, 'w) hheap \<Rightarrow> ('k, 'v, 'w) hheap option" where
  "displayHashElements_loop t 0 i h = Some h"
| "displayHashElements_loop t (Suc r) i h =
     (case table_cell t (int i) of
        None \<Rightarrow> None
      | Some b \<Rightarrow>
          (case displayList (Some b) h of
             None \<Rightarrow> None
           | Some (_, h') \<Rightarrow> displayHashElements_loop t r (Suc i) h'))"

definition displayHashElements ::
  "('k, 'v, 'w) hashTable_s option \<Rightarrow> ('k, 'v, 'w) hheap \<Rightarrow> (status \<times> ('k, 'v, 'w) hheap) option" where
  "displayHashElements HashTable h =
     (case HashTable of
        None \<Rightarrow> Some (Invalid_input, h)
      | Some t \<Rightarrow>
          (case displayHashElements_loop t (nat (tableSize t)) 0 h of
             None \<Rightarrow> None
           | Some h' \<Rightarrow> Some (success, h')))"

subsection \<open>MultiValueHashTable\<close>

text \<open>
  The value of a key of the multi-value table is the handle of a list of values. The
  lists of values live in their own memory, which is the world of the underlying hash
  table: \<open>destroyList\<close> and \<open>displayList\<close>, given to it as the value's free and print
  functions, act there. The caller's callbacks act on the caller's world \<open>'u\<close> inside it.
\<close>

type_synonym ('v, 'u) vheap = "('v, 'v, 'u) heap"

type_synonym ('k, 'v, 'u) mheap = "('k, addr, ('v, 'u) vheap) hheap"

definition on_world :: "('a \<Rightarrow> 'u \<Rightarrow> 'u option) \<Rightarrow> 'a \<Rightarrow> ('v, 'u) vheap \<Rightarrow> ('v, 'u) vheap option" where
  "on_world f x vh = (case f x (world vh) of None \<Rightarrow> None | Some u' \<Rightarrow> Some (vh\<lparr>world := u'\<rparr>))"

text \<open>\<open>struct MultiHashTable_s\<close>; the fields of the callbacks carry the prefix \<open>mv_\<close>.\<close>

record ('k, 'v, 'u) MultiHashTable_s =
  HashTable :: "('k, addr, ('v, 'u) vheap) hashTable_s option"
  mv_transIntoNumber :: "'k TransformIntoNumberFunction"
  mv_copyKey :: "'k CopyFunction"
  mv_freeKey :: "('k, 'u) FreeFunction"
  mv_printKey :: "('k, 'u) PrintFunction"
  mv_copyValue :: "'v CopyFunction"
  mv_freeValue :: "('v, 'u) FreeFunction"
  mv_printValue :: "('v, 'u) PrintFunction"
  mv_equalKey :: "('k, 'k) EqualFunction"
  mv_equalVal :: "('v, 'v) EqualFunction"

definition copyLinkListVal :: "addr option \<Rightarrow> addr option" where
  "copyLinkListVal element = (case element of None \<Rightarrow> None | Some e \<Rightarrow> Some e)"

text \<open>
  \<open>createMultiValueHashTable\<close>; \<open>m_multi\<close> is the outcome of the \<open>malloc\<close> of the
  structure, the other three are those of \<open>createHashTable\<close>.
\<close>

definition createMultiValueHashTable ::
  "bool \<Rightarrow> bool \<Rightarrow> bool \<Rightarrow> (nat \<Rightarrow> bool) \<Rightarrow>
   'k CopyFunction option \<Rightarrow> ('k, 'u) FreeFunction option \<Rightarrow> ('k, 'u) PrintFunction option \<Rightarrow>
   'v CopyFunction option \<Rightarrow> ('v, 'u) FreeFunction option \<Rightarrow> ('v, 'u) PrintFunction option \<Rightarrow>
   ('k, 'k) EqualFunction option \<Rightarrow> ('v, 'v) EqualFunction option \<Rightarrow>
   'k TransformIntoNumberFunction option \<Rightarrow> int \<Rightarrow>
   ('k, 'v, 'u) mheap \<Rightarrow> ('k, 'v, 'u) MultiHashTable_s option \<times> ('k, 'v, 'u) mheap" where
  "createMultiValueHashTable m_multi m_struct m_array m_list copyKey' freeKey' printKey'
       copyValue' freeValue' printValue' equalKey' equalVal transformIntoNumber MultiHashNumber h =
     (case (copyKey', freeKey', printKey', equalKey', transformIntoNumber,
            copyValue', freeValue', printValue', equalVal) of
        (Some ck, Some fk, Some pk, Some ek, Some tr, Some cv, Some fv, Some pv, Some ev) \<Rightarrow>
          if \<not> m_multi then (None, h)
          else
            (case createHashTable m_struct m_array m_list
                    (Some ck) (Some (on_world fk)) (Some (on_world pk))
                    (Some (\<lambda>e. copyLinkListVal (Some e)))
                    (Some (as_callback destroyList)) (Some (as_callback displayList))
                    (Some ek) (Some tr) MultiHashNumber h of
               (None, h') \<Rightarrow> (None, h')
             | (Some t, h') \<Rightarrow>
                 (Some \<lparr>HashTable = Some t, mv_transIntoNumber = tr, mv_copyKey = ck,
                        mv_freeKey = fk, mv_printKey = pk, mv_copyValue = cv, mv_freeValue = fv,
                        mv_printValue = pv, mv_equalKey = ek, mv_equalVal = ev\<rparr>, h'))
      | _ \<Rightarrow> (None, h))"

definition destroyMultiValueHashTable ::
  "('k, 'v, 'u) MultiHashTable_s option \<Rightarrow> ('k, 'v, 'u) mheap \<Rightarrow>
   (status \<times> ('k, 'v, 'u) mheap) option" where
  "destroyMultiValueHashTable MultiHashTable h =
     (case MultiHashTable of
        None \<Rightarrow> Some (Invalid_input, h)
      | Some m \<Rightarrow>
          (case destroyHashTable (HashTable m) h of
             None \<Rightarrow> None
           | Some (_, h') \<Rightarrow> Some (success, h')))"

text \<open>
  Run an operation of the list module on the memory of the value lists, which is the
  world of the table's memory.
\<close>

definition in_values ::
  "(('v, 'u) vheap \<Rightarrow> ('r \<times> ('v, 'u) vheap) option) \<Rightarrow> ('k, 'v, 'u) mheap \<Rightarrow>
   ('r \<times> ('k, 'v, 'u) mheap) option" where
  "in_values f h = (case f (world h) of None \<Rightarrow> None | Some (r, vh) \<Rightarrow> Some (r, h\<lparr>world := vh\<rparr>))"

text \<open>
  \<open>addToMultiValueHashTable\<close>. The outcomes of the \<open>malloc\<close> calls: \<open>m_list\<close> for the
  new list of values, \<open>m_vnode\<close> for the node of the value, \<open>m_pair\<close> and \<open>m_node\<close> for
  the pair and its node in \<open>addToHashTable\<close>.
\<close>

definition addToMultiValueHashTable ::
  "bool \<Rightarrow> bool \<Rightarrow> bool \<Rightarrow> bool \<Rightarrow> ('k, 'v, 'u) MultiHashTable_s option \<Rightarrow> 'k option \<Rightarrow>
   'v option \<Rightarrow> ('k, 'v, 'u) mheap \<Rightarrow> (status \<times> ('k, 'v, 'u) mheap) option" where
  "addToMultiValueHashTable m_list m_vnode m_pair m_node MultiHashTable key val h =
     (case (MultiHashTable, key, val) of
        (Some m, Some k, Some v) \<Rightarrow>
          (case lookupInHashTable (HashTable m) (Some k) h of
             None \<Rightarrow> None
           | Some None \<Rightarrow>
               (case createLinkedList m_list (Some (mv_copyValue m)) (Some (mv_freeValue m))
                       (Some (mv_printValue m)) (Some (mv_equalVal m)) (world h) of
                  (None, vh) \<Rightarrow> Some (failure, h\<lparr>world := vh\<rparr>)
                | (Some valuesLinkedList, vh) \<Rightarrow>
                    (case appendNode m_vnode (Some valuesLinkedList) (Some v) vh of
                       None \<Rightarrow> None
                     | Some (result, vh1) \<Rightarrow>
                         if result = Memory_Problem then
                           (case destroyList (Some valuesLinkedList) vh1 of
                              None \<Rightarrow> None
                            | Some (_, vh2) \<Rightarrow> Some (Memory_Problem, h\<lparr>world := vh2\<rparr>))
                         else if result = Invalid_input then
                           (case destroyList (Some valuesLinkedList) vh1 of
                              None \<Rightarrow> None
                            | Some (_, vh2) \<Rightarrow> Some (Invalid_input, h\<lparr>world := vh2\<rparr>))
                         else
                           (case addToHashTable m_pair m_node (HashTable m) (Some k)
                                   (Some valuesLinkedList) (h\<lparr>world := vh1\<rparr>) of
                              None \<Rightarrow> None
                            | Some (addResult, h1) \<Rightarrow>
                                if addResult = Memory_Problem then
                                  (case in_values (destroyList (Some valuesLinkedList)) h1 of
                                     None \<Rightarrow> None
                                   | Some (_, h2) \<Rightarrow> Some (Memory_Problem, h2))
                                else if addResult = Invalid_input then
                                  (case in_values (destroyList (Some valuesLinkedList)) h1 of
                                     None \<Rightarrow> None
                                   | Some (_, h2) \<Rightarrow> Some (success, h2))
                                else Some (success, h1))))
           | Some (Some link_to_add) \<Rightarrow>
               (case in_values (appendNode m_vnode (Some link_to_add) (Some v)) h of
                  None \<Rightarrow> None
                | Some (appedResult, h1) \<Rightarrow>
                    Some (if appedResult = Memory_Problem then Memory_Problem
                          else if appedResult = Invalid_input then Invalid_input
                          else success, h1)))
      | _ \<Rightarrow> Some (Invalid_input, h))"

definition lookupInMultiValueHashTable ::
  "('k, 'v, 'u) MultiHashTable_s option \<Rightarrow> 'k option \<Rightarrow> ('k, 'v, 'u) mheap \<Rightarrow> addr option option" where
  "lookupInMultiValueHashTable MultiHashTable key h =
     (case (MultiHashTable, key) of
        (Some m, Some k) \<Rightarrow>
          (case lookupInHashTable (HashTable m) (Some k) h of
             None \<Rightarrow> None
           | Some None \<Rightarrow> Some None
           | Some (Some valuesLinkedList) \<Rightarrow> Some (Some valuesLinkedList))
      | _ \<Rightarrow> Some None)"

definition removeFromMultiValueHashTable ::
  "('k, 'v, 'u) MultiHashTable_s option \<Rightarrow> 'k option \<Rightarrow> 'v option \<Rightarrow> ('k, 'v, 'u) mheap \<Rightarrow>
   (status \<times> ('k, 'v, 'u) mheap) option" where
  "removeFromMultiValueHashTable MultiHashTable key compareVal h =
     (case (MultiHashTable, key, compareVal) of
        (Some m, Some k, Some cv) \<Rightarrow>
          (case lookupInHashTable (HashTable m) (Some k) h of
             None \<Rightarrow> None
           | Some None \<Rightarrow> Some (no_element, h)
           | Some (Some valuesLinkedList) \<Rightarrow>
               (case searchByKeyInList (Some valuesLinkedList) (Some cv) (world h) of
                  None \<Rightarrow> None
                | Some None \<Rightarrow> Some (no_element, h)
                | Some (Some ValueEqual) \<Rightarrow>
                    (case in_values (deleteNode (Some valuesLinkedList) (Some cv)) h of
                       None \<Rightarrow> None
                     | Some (deleteResult, h1) \<Rightarrow>
                         if deleteResult = Invalid_input then Some (Invalid_input, h1)
                         else
                           (case getLengthList (Some valuesLinkedList) (world h1) of
                              None \<Rightarrow> None
                            | Some len \<Rightarrow>
                                if len = 0 then
                                  (case removeFromHashTable (HashTable m) (Some k) h1 of
                                     None \<Rightarrow> None
                                   | Some (removeFromHash, h2) \<Rightarrow>
                                       Some (if removeFromHash = Invalid_input then Invalid_input
                                             else success, h2))
                                else Some (success, h1)))))
      | _ \<Rightarrow> Some (Invalid_input, h))"

definition displayMultiValueHashElementsByKey ::
  "('k, 'v, 'u) MultiHashTable_s option \<Rightarrow> 'k option \<Rightarrow> ('k, 'v, 'u) mheap \<Rightarrow>
   (status \<times> ('k, 'v, 'u) mheap) option" where
  "displayMultiValueHashElementsByKey MultiHashTable key h =
     (case (MultiHashTable, key) of
        (Some m, Some k) \<Rightarrow>
          (case lookupInHashTable (HashTable m) (Some k) h of
             None \<Rightarrow> None
           | Some None \<Rightarrow> Some (no_element, h)
           | Some (Some valuesLinkedList) \<Rightarrow>
               (case on_world (mv_printKey m) k (world h) of
                  None \<Rightarrow> None
                | Some vh \<Rightarrow>
                    (case displayList (Some valuesLinkedList) vh of
                       None \<Rightarrow> None
                     | Some (printResult, vh1) \<Rightarrow>
                         Some (if printResult = Invalid_input then Invalid_input else success,
                               h\<lparr>world := vh1\<rparr>))))
      | _ \<Rightarrow> Some (Invalid_input, h))"

section \<open>Abstraction: the sequence of elements a list holds\<close>

text \<open>
  \<open>dl_seg mem pv as nx\<close>: the nodes at the addresses \<open>as\<close> are live in \<open>mem\<close> and are
  doubly linked in this order; the first one has \<open>prev = pv\<close> and the last one \<open>next = nx\<close>.
\<close>

fun next_of :: "addr list \<Rightarrow> addr option \<Rightarrow> addr option" where
  "next_of [] nx = nx"
| "next_of (b # bs) nx = Some b"

fun last_of :: "addr list \<Rightarrow> addr option \<Rightarrow> addr option" where
  "last_of [] pv = pv"
| "last_of (b # bs) pv = Some (last (b # bs))"

fun dl_seg :: "'a node_s option list \<Rightarrow> addr option \<Rightarrow> addr list \<Rightarrow> addr option \<Rightarrow> bool" where
  "dl_seg mem pv [] nx = True"
| "dl_seg mem pv (a # as) nx =
     (case load mem a of
        None \<Rightarrow> False
      | Some n \<Rightarrow> prev_node n = pv \<and> next_node n = next_of as nx \<and> dl_seg mem (Some a) as nx)"

definition contents_at :: "'a node_s option list \<Rightarrow> addr list \<Rightarrow> 'a list" where
  "contents_at mem as = map (\<lambda>a. data (the (load mem a))) as"

text \<open>
  The invariant of a list structure whose nodes are, in order, at the addresses \<open>as\<close>:
  \<open>head\<close> and \<open>tail\<close> are the first and the last node (both \<open>NULL\<close> when there is none),
  the chain is acyclic and doubly linked, and \<open>count_elements\<close> is its length.
\<close>

definition list_inv :: "('a, 'b, 'w) LinkedList_s \<Rightarrow> addr list \<Rightarrow> bool" where
  "list_inv l as \<longleftrightarrow>
     distinct as \<and> dl_seg (nodes l) None as None \<and>
     head l = next_of as None \<and> tail l = last_of as None \<and>
     count_elements l = int (length as)"

text \<open>\<open>is_list l xs\<close>: the structure \<open>l\<close> is a well-formed list holding \<open>xs\<close>, head first.\<close>

definition is_list :: "('a, 'b, 'w) LinkedList_s \<Rightarrow> 'a list \<Rightarrow> bool" where
  "is_list l xs \<longleftrightarrow> (\<exists>as. list_inv l as \<and> contents_at (nodes l) as = xs)"

text \<open>The list obtained by removing the first element that satisfies \<open>P\<close>.\<close>

fun remove_first :: "('a \<Rightarrow> bool) \<Rightarrow> 'a list \<Rightarrow> 'a list" where
  "remove_first P [] = []"
| "remove_first P (x # xs) = (if P x then xs else x # remove_first P xs)"

text \<open>
  \<open>bucket_list t l ps\<close>: \<open>l\<close> is a bucket list of the table \<open>t\<close> that holds the pairs
  \<open>ps\<close>: it is well formed, it has the three functions that \<open>createHashTable\<close> gives to its
  lists, and its pairs carry the callbacks of \<open>t\<close>, as \<open>addToHashTable\<close> builds them.
\<close>

definition bucket_list ::
  "('k, 'v, 'w) hashTable_s \<Rightarrow> (('k, 'v, 'w) KeyValuePair_s, 'k, 'w) LinkedList_s \<Rightarrow>
   ('k, 'v, 'w) KeyValuePair_s list \<Rightarrow> bool" where
  "bucket_list t l ps \<longleftrightarrow>
     is_list l ps \<and>
     copyElement l = (\<lambda>e. copyKeyValuePairs (Some e)) \<and>
     freeElement l = as_callback destroyKeyValuePairhash \<and>
     equalElement l = (\<lambda>kvp key. equalForInnerList (Some kvp) (Some key)) \<and>
     (\<forall>p\<in>set ps. kv_copyValue p = copyValue t \<and> kv_freeKey p = freeKey t \<and>
                 kv_freeValue p = freeValue t \<and> kv_equalKey p = equalKey t)"

text \<open>
  \<open>table_contents t h pss\<close>: in the memory \<open>h\<close> the table \<open>t\<close> is well formed and its
  bucket \<open>i\<close> holds the pairs \<open>pss ! i\<close>: the array has \<open>tableSize\<close> cells (none when
  \<open>tableSize\<close> is negative), which point to different lists.
\<close>

definition table_contents ::
  "('k, 'v, 'w) hashTable_s \<Rightarrow> ('k, 'v, 'w) hheap \<Rightarrow> ('k, 'v, 'w) KeyValuePair_s list list \<Rightarrow> bool" where
  "table_contents t h pss \<longleftrightarrow>
     length (table t) = nat (tableSize t) \<and> distinct (table t) \<and>
     length pss = length (table t) \<and>
     (\<forall>i<length (table t). \<exists>l. load (lists h) (table t ! i) = Some l \<and> bucket_list t l (pss ! i))"

text \<open>The pairs of a bucket whose key matches the probe \<open>k\<close>, in the order of the list.\<close>

definition matching :: "('k, 'v, 'w) hashTable_s \<Rightarrow> 'k \<Rightarrow> ('k, 'v, 'w) KeyValuePair_s list \<Rightarrow>
   ('k, 'v, 'w) KeyValuePair_s list" where
  "matching t k ps = filter (\<lambda>p. equalKey t (kv_key p) k) ps"

text \<open>The pair that \<open>addToHashTable\<close> builds from the copies of the key and of the value.\<close>

definition pair_of :: "('k, 'v, 'w) hashTable_s \<Rightarrow> 'k \<Rightarrow> 'v \<Rightarrow> ('k, 'v, 'w) KeyValuePair_s" where
  "pair_of t k v =
     \<lparr>kv_key = k, kv_value = v, kv_copyKey = copyKey t, kv_copyValue = copyValue t,
      kv_freeKey = freeKey t, kv_freeValue = freeValue t, kv_printKey = printKey t,
      kv_printValue = printValue t, kv_equalKey = equalKey t\<rparr>"

text \<open>The list structure that \<open>createHashTable\<close> puts into every cell of the array.\<close>

definition empty_bucket :: "(('k, 'v, 'w) KeyValuePair_s, 'k, 'w) LinkedList_s" where
  "empty_bucket =
     \<lparr>head = None, tail = None, count_elements = 0,
      copyElement = (\<lambda>e. copyKeyValuePairs (Some e)),
      freeElement = as_callback destroyKeyValuePairhash,
      printElement = as_callback PrintKeyValPair,
      equalElement = (\<lambda>kvp key. equalForInnerList (Some kvp) (Some key)),
      nodes = []\<rparr>"

section \<open>Concrete instances\<close>

text \<open>
  Lists of natural numbers whose callbacks copy by value, compare with equality and free
  nothing; the world outside the container is trivial.
\<close>

definition nat_list_empty :: "(nat, nat, unit) LinkedList_s" where
  "nat_list_empty =
     \<lparr>head = None, tail = None, count_elements = 0, copyElement = Some,
      freeElement = (\<lambda>x w. Some w), printElement = (\<lambda>x w. Some w),
      equalElement = (=), nodes = []\<rparr>"

definition nat_list_123 :: "(nat, nat, unit) LinkedList_s" where
  "nat_list_123 =
     \<lparr>head = Some 0, tail = Some 2, count_elements = 3, copyElement = Some,
      freeElement = (\<lambda>x w. Some w), printElement = (\<lambda>x w. Some w),
      equalElement = (=),
      nodes = [Some \<lparr>next_node = Some 1, prev_node = None, data = 10\<rparr>,
               Some \<lparr>next_node = Some 2, prev_node = Some 0, data = 20\<rparr>,
               Some \<lparr>next_node = None, prev_node = Some 1, data = 30\<rparr>]\<rparr>"

text \<open>
  A table from natural numbers to natural numbers with 13 cells and the hash function
  \<open>int\<close>, as \<open>createHashTable\<close> returns it in the empty memory, and that memory.
\<close>

definition nat_table :: "(nat, nat, unit) hashTable_s" where
  "nat_table =
     \<lparr>table = [0..<13], tableSize = 13, numberOfElements = 0, transIntoNumber = int,
      copyKey = Some, freeKey = (\<lambda>x w. Some w), printKey = (\<lambda>x w. Some w),
      copyValue = Some, freeValue = (\<lambda>x w. Some w), printValue = (\<lambda>x w. Some w),
      equalKey = (=)\<rparr>"

definition nat_table_heap :: "(nat, nat, unit) hheap" where
  "nat_table_heap = \<lparr>lists = replicate 13 (Some empty_bucket), world = ()\<rparr>"

text \<open>
  A table whose keys are integers that are their own hash value, as \<open>createHashTable\<close>
  returns it for 13 cells in the empty memory, and that memory. The callbacks that free and
  print do nothing, and every allocation of a list succeeds.
\<close>

definition no_op :: "'a \<Rightarrow> 'w \<Rightarrow> 'w option" where
  "no_op x w = Some w"

definition every_malloc :: "nat \<Rightarrow> bool" where
  "every_malloc i = True"

definition int_hash :: "int \<Rightarrow> int" where
  "int_hash k = k"

definition empty_heap :: "('a, 'b, unit) heap" where
  "empty_heap = \<lparr>lists = [], world = ()\<rparr>"

definition int_table :: "(int, nat, unit) hashTable_s" where
  "int_table =
     \<lparr>table = [0..<13], tableSize = 13, numberOfElements = 0, transIntoNumber = int_hash,
      copyKey = Some, freeKey = no_op, printKey = no_op,
      copyValue = Some, freeValue = no_op, printValue = no_op, equalKey = (=)\<rparr>"

definition int_table_heap :: "(int, nat, unit) hheap" where
  "int_table_heap = \<lparr>lists = replicate 13 (Some empty_bucket), world = ()\<rparr>"

section \<open>Sequences of calls\<close>

text \<open>
  The calls \<open>appendNode(list, e)\<close> for the elements \<open>e\<close> of \<open>es\<close>, one after the other, every
  allocation of a node succeeding; the result is defined when every call returns \<open>success\<close>.
\<close>

fun appendNodes :: "addr \<Rightarrow> 'a list \<Rightarrow> ('a, 'b, 'w) heap \<Rightarrow> ('a, 'b, 'w) heap option" where
  "appendNodes p [] h = Some h"
| "appendNodes p (e # es) h =
     (case appendNode True (Some p) (Some e) h of
        None \<Rightarrow> None
      | Some (st, h') \<Rightarrow> if st = success then appendNodes p es h' else None)"

subsection \<open>Operations on the multi-value table\<close>




text \<open>The handle \<open>a\<close> points to a live, well-formed list that holds at least one value.\<close>

definition nonempty_list :: "('v, 'u) vheap \<Rightarrow> addr \<Rightarrow> bool" where
  "nonempty_list vh a \<longleftrightarrow> (\<exists>l xs. load (lists vh) a = Some l \<and> is_list l xs \<and> xs \<noteq> [])"








section \<open>Correctness of the table-size selection\<close>

subsection \<open>Elementary number theory: Fermat's little theorem and a Pocklington criterion\<close>

lemma nprime_factor: "1 < n \<Longrightarrow> \<exists>p. nprime p \<and> p dvd n"
proof (induction n rule: less_induct)
  case (less n)
  show ?case
  proof (cases "nprime n")
    case True
    then show ?thesis by auto
  next
    case False
    with less.prems obtain d where d: "d dvd n" "d \<noteq> 1" "d \<noteq> n"
      by (auto simp: nprime_def)
    from d less.prems have "d \<le> n" by (auto intro: dvd_imp_le)
    with d have dn: "d < n" by simp
    from d less.prems have "d \<noteq> 0" by (auto simp: dvd_def)
    with d have "1 < d" by simp
    from less.IH [OF dn this] obtain p where "nprime p" "p dvd d" by blast
    with d(1) show ?thesis by (blast intro: dvd_trans)
  qed
qed

lemma nprime_coprime: "nprime p \<Longrightarrow> \<not> p dvd a \<Longrightarrow> coprime p a"
proof (rule coprimeI)
  fix c assume p: "nprime p" and n: "\<not> p dvd a" and c: "c dvd p" "c dvd a"
  from p c(1) have "c = 1 \<or> c = p" by (simp add: nprime_def)
  with n c(2) show "is_unit c" by auto
qed

lemma nprime_dvd_mult: "nprime p \<Longrightarrow> p dvd a * b \<Longrightarrow> p dvd a \<or> p dvd b"
  using nprime_coprime coprime_dvd_mult_right_iff by blast

lemma nprime_dvd_power: "nprime p \<Longrightarrow> p dvd a ^ k \<Longrightarrow> p dvd a"
proof (induction k)
  case 0
  then show ?case by (simp add: nprime_def)
next
  case (Suc k)
  then show ?case using nprime_dvd_mult [of p a "a ^ k"] by auto
qed

lemma nprime_dvd_choose:
  assumes p: "nprime p" and k: "0 < k" "k < p"
  shows "p dvd (p choose k)"
proof -
  have "k * (p choose k) = p * ((p - 1) choose (k - 1))"
    by (rule times_binomial_minus1_eq [OF k(1)])
  then have "p dvd k * (p choose k)" by simp
  moreover have "\<not> p dvd k" using k by (auto dest: dvd_imp_le)
  ultimately show ?thesis using nprime_dvd_mult [OF p] by blast
qed

lemma fermat_step:
  assumes p: "nprime p"
  shows "(a + 1) ^ p mod p = (a ^ p + 1) mod p"
proof -
  have p0: "0 < p" using p by (simp add: nprime_def)
  have e: "(a + 1) ^ p = (\<Sum>k\<le>p. (p choose k) * a ^ k)"
    using binomial [of a 1 p] by simp
  have s: "{..p} = insert 0 (insert p {0<..<p})" using p0 by auto
  have "(\<Sum>k\<le>p. (p choose k) * a ^ k) = 1 + a ^ p + (\<Sum>k\<in>{0<..<p}. (p choose k) * a ^ k)"
    using p0 by (simp add: s)
  moreover have "p dvd (\<Sum>k\<in>{0<..<p}. (p choose k) * a ^ k)"
    by (rule dvd_sum) (auto intro: dvd_mult2 nprime_dvd_choose [OF p])
  ultimately show ?thesis
    using e by (metis add.commute mod_add_self2 dvd_def mod_mult_self2)
qed

lemma fermat_weak: "nprime p \<Longrightarrow> a ^ p mod p = a mod p"
proof (induction a)
  case 0
  then show ?case by (cases p) (auto simp: nprime_def)
next
  case (Suc a)
  have "Suc a ^ p mod p = (a ^ p + 1) mod p"
    using fermat_step [OF Suc.prems, of a] by simp
  also have "\<dots> = (a ^ p mod p + 1) mod p" by (simp add: mod_simps)
  also have "\<dots> = (a mod p + 1) mod p" using Suc by simp
  also have "\<dots> = Suc a mod p" by (simp add: mod_simps)
  finally show ?case .
qed

lemma fermat_little:
  assumes p: "nprime p" and a: "\<not> p dvd a"
  shows "a ^ (p - 1) mod p = 1"
proof -
  have p1: "1 < p" using p by (simp add: nprime_def)
  have a0: "0 < a" using a by (cases a) auto
  have "a ^ p mod p = a mod p" by (rule fermat_weak [OF p])
  then have "int (a * a ^ (p - 1)) mod int p = int (a * 1) mod int p"
    using p1 by (metis One_nat_def Suc_pred less_imp_Suc_add mult.right_neutral of_nat_mod power_Suc zero_less_Suc)
  then have "int p dvd int a * (int (a ^ (p - 1)) - 1)"
    by (simp add: mod_eq_dvd_iff right_diff_distrib)
  moreover have "coprime (int p) (int a)"
    using nprime_coprime [OF p a] by simp
  ultimately have "int p dvd int (a ^ (p - 1)) - 1"
    by (simp add: coprime_dvd_mult_right_iff)
  moreover have "1 \<le> a ^ (p - 1)" using a0 by simp
  ultimately have "p dvd a ^ (p - 1) - 1"
    by (metis int_dvd_int_iff of_nat_1 of_nat_diff)
  then have "(a ^ (p - 1) - 1 + 1) mod p = 1 mod p"
    by (metis add.commute dvd_def mod_mult_self2)
  moreover have "a ^ (p - 1) - 1 + 1 = a ^ (p - 1)"
    using \<open>1 \<le> a ^ (p - 1)\<close> by simp
  ultimately show ?thesis using p1 by simp
qed


lemma power_mod_one: "(b::nat) ^ q mod p = 1 \<Longrightarrow> b ^ (q * x) mod p = 1 mod p"
proof -
  assume "b ^ q mod p = 1"
  then have "(b ^ q) ^ x mod p = 1 ^ x mod p" by (metis power_mod)
  then show ?thesis by (simp add: power_mult)
qed

lemma order_dvd:
  assumes p: "1 < p" and q: "nprime q"
    and bq: "(b::nat) ^ q mod p = 1" and bp: "b ^ (p - 1) mod p = 1" and b1: "b mod p \<noteq> 1"
  shows "q dvd p - 1"
proof (rule ccontr)
  assume n: "\<not> q dvd p - 1"
  have "coprime q (p - 1)" by (rule nprime_coprime [OF q n])
  then have g: "gcd q (p - 1) = 1" by simp
  have "q \<noteq> 0" using q by (auto simp: nprime_def)
  from bezout_nat [OF this, of "p - 1"] g obtain x y where xy: "q * x = (p - 1) * y + 1"
    by auto
  have "b ^ (q * x) mod p = 1" using power_mod_one [OF bq, of x] p by simp
  moreover have "b ^ ((p - 1) * y + 1) mod p = (b ^ ((p - 1) * y) mod p) * b mod p"
    by (simp add: mod_simps mult.commute)
  moreover have "b ^ ((p - 1) * y) mod p = 1" using power_mod_one [OF bp, of y] p by simp
  ultimately have "b mod p = 1" using xy by simp
  with b1 show False by simp
qed

lemma small_factor:
  assumes n: "1 < n" and np: "\<not> nprime n"
  shows "\<exists>p. nprime p \<and> p dvd n \<and> p * p \<le> n"
proof -
  from n np obtain d where d: "d dvd n" "d \<noteq> 1" "d \<noteq> n" by (auto simp: nprime_def)
  then obtain e where e: "n = d * e" by (auto simp: dvd_def)
  with n d have d1: "1 < d" and e1: "1 < e" by (cases d; cases e; auto)+
  define m where "m = min d e"
  have m1: "1 < m" and mn: "m dvd n" and mm: "m * m \<le> n"
    using d1 e1 e by (auto simp: m_def min_def intro: mult_le_mono)
  from nprime_factor [OF m1] obtain p where pp: "nprime p" "p dvd m" by blast
  have "0 < m" using m1 by simp
  with pp(2) have "p \<le> m" by (rule dvd_imp_le)
  then have "p * p \<le> m * m" by (simp add: mult_le_mono)
  with pp mn mm show ?thesis by (blast intro: dvd_trans order_trans)
qed

lemma pocklington2:
  assumes n: "1 < n"
    and q1: "nprime q1" "q1 dvd n - 1" and q2: "nprime q2" "q2 dvd n - 1" and ne: "q1 \<noteq> q2"
    and big: "n < (q1 * q2 + 1) * (q1 * q2 + 1)"
    and an: "a ^ (n - 1) mod n = 1"
    and c1: "coprime (int (a ^ ((n - 1) div q1) mod n) - 1) (int n)"
    and c2: "coprime (int (a ^ ((n - 1) div q2) mod n) - 1) (int n)"
  shows "nprime n"
proof (rule ccontr)
  assume "\<not> nprime n"
  from small_factor [OF n this] obtain p where p: "nprime p" "p dvd n" "p * p \<le> n" by blast
  have p1: "1 < p" using p(1) by (simp add: nprime_def)
  have ap: "a ^ (n - 1) mod p = 1"
    using an p(2) p1 by (metis mod_mod_cancel mod_less)
  have npa: "\<not> p dvd a"
  proof
    assume "p dvd a"
    moreover have "a dvd a ^ (n - 1)" using n by (intro dvd_power) simp
    ultimately have "p dvd a ^ (n - 1)" by (rule dvd_trans)
    with ap show False by (simp add: dvd_eq_mod_eq_0)
  qed
  have fl: "a ^ (p - 1) mod p = 1" by (rule fermat_little [OF p(1) npa])
  have key: "q dvd p - 1"
    if q: "nprime q" "q dvd n - 1"
      and c: "coprime (int (a ^ ((n - 1) div q) mod n) - 1) (int n)" for q
  proof -
    define b where "b = a ^ ((n - 1) div q)"
    have "b ^ q = a ^ (n - 1)" using q(2) by (simp add: b_def flip: power_mult)
    then have bq: "b ^ q mod p = 1" using ap by simp
    have "b ^ (p - 1) = (a ^ (p - 1)) ^ ((n - 1) div q)"
      by (simp add: b_def flip: power_mult) (simp add: mult.commute)
    then have "b ^ (p - 1) mod p = (a ^ (p - 1) mod p) ^ ((n - 1) div q) mod p"
      by (simp add: power_mod)
    then have bp: "b ^ (p - 1) mod p = 1" using fl p1 by simp
    have b1: "b mod p \<noteq> 1"
    proof
      assume b: "b mod p = 1"
      have "(b mod n) mod p = 1" using b p(2) by (simp add: mod_mod_cancel)
      then have "int (b mod n) mod int p = 1 mod int p" using p1
        by (metis of_nat_1 of_nat_mod mod_less)
      then have "int p dvd int (b mod n) - 1" by (simp add: mod_eq_dvd_iff)
      moreover have "int p dvd int n" using p(2) by simp
      ultimately have "is_unit (int p)" using c unfolding b_def
        by (meson coprime_common_divisor)
      with p1 show False by simp
    qed
    show ?thesis by (rule order_dvd [OF p1 q(1) bq bp b1])
  qed
  have d1: "q1 dvd p - 1" by (rule key [OF q1 c1])
  have d2: "q2 dvd p - 1" by (rule key [OF q2 c2])
  have "\<not> q1 dvd q2" using q1(1) q2(1) ne by (auto simp: nprime_def)
  then have cop: "coprime q1 q2" by (rule nprime_coprime [OF q1(1)])
  have "q1 * q2 dvd p - 1" by (rule divides_mult [OF d1 d2 cop])
  then have "q1 * q2 \<le> p - 1" using p1 by (auto intro: dvd_imp_le)
  then have "q1 * q2 + 1 \<le> p" using p1 by arith
  then have "(q1 * q2 + 1) * (q1 * q2 + 1) \<le> p * p" by (intro mult_le_mono)
  with big p(3) show False by simp
qed

lemma modpow_eq: "modpow a e n = a ^ e mod n"
proof (induction a e n rule: modpow.induct)
  case (1 a e n)
  show ?case
  proof (cases "e = 0")
    case True
    then show ?thesis by (simp add: modpow.simps)
  next
    case False
    have h: "modpow a (e div 2) n = a ^ (e div 2) mod n" using 1 False by simp
    show ?thesis
    proof (cases "even e")
      case True
      then obtain k where k: "e = 2 * k" by (auto elim: evenE)
      have "modpow a e n = (a ^ k mod n) * (a ^ k mod n) mod n"
        using False True h k by (subst modpow.simps) (simp add: Let_def)
      also have "\<dots> = a ^ e mod n"
        by (simp add: k mult_2 power_add mod_simps)
      finally show ?thesis .
    next
      case odd: False
      then obtain k where k: "e = 2 * k + 1" by (auto elim: oddE)
      have "modpow a e n = (a ^ k mod n) * (a ^ k mod n) mod n * a mod n"
        using False odd h k by (subst modpow.simps) (simp add: Let_def)
      also have "\<dots> = a ^ k * a ^ k * a mod n"
        by (simp add: mod_simps)
      also have "a ^ k * a ^ k * a = a ^ e"
        by (simp add: k mult_2 power_add)
      finally show ?thesis .
    qed
  qed
qed

subsection \<open>CheckPrimeNumber decides primality\<close>

lemma CheckPrimeNumber_loop_iff:
  "0 \<le> i \<Longrightarrow>
   CheckPrimeNumber_loop n i \<longleftrightarrow> (\<forall>d. i \<le> d \<and> d * d \<le> n \<longrightarrow> n mod d \<noteq> 0)"
proof (induction n i rule: CheckPrimeNumber_loop.induct)
  case (1 n i)
  show ?case
  proof (cases "i * i \<le> n")
    case le: True
    show ?thesis
    proof (cases "n mod i = 0")
      case True
      with le have "\<not> CheckPrimeNumber_loop n i"
        by (subst CheckPrimeNumber_loop.simps) simp
      moreover have "\<not> (\<forall>d. i \<le> d \<and> d * d \<le> n \<longrightarrow> n mod d \<noteq> 0)"
      proof
        assume "\<forall>d. i \<le> d \<and> d * d \<le> n \<longrightarrow> n mod d \<noteq> 0"
        then have "i \<le> i \<and> i * i \<le> n \<longrightarrow> n mod i \<noteq> 0" by (rule spec)
        with le True show False by simp
      qed
      ultimately show ?thesis by simp
    next
      case False
      have "CheckPrimeNumber_loop n i = CheckPrimeNumber_loop n (i + 1)"
        using le False by (subst CheckPrimeNumber_loop.simps) simp
      also have "\<dots> \<longleftrightarrow> (\<forall>d. i + 1 \<le> d \<and> d * d \<le> n \<longrightarrow> n mod d \<noteq> 0)"
        using 1 le False by simp
      also have "\<dots> \<longleftrightarrow> (\<forall>d. i \<le> d \<and> d * d \<le> n \<longrightarrow> n mod d \<noteq> 0)"
      proof (intro iffI allI impI)
        fix d
        assume h: "\<forall>d. i + 1 \<le> d \<and> d * d \<le> n \<longrightarrow> n mod d \<noteq> 0" and d: "i \<le> d \<and> d * d \<le> n"
        show "n mod d \<noteq> 0"
        proof (cases "d = i")
          case True
          with False show ?thesis by simp
        next
          case ne: False
          with d have "i + 1 \<le> d" by simp
          moreover from h have "i + 1 \<le> d \<and> d * d \<le> n \<longrightarrow> n mod d \<noteq> 0" by (rule spec)
          ultimately show ?thesis using d by simp
        qed
      next
        fix d
        assume h: "\<forall>d. i \<le> d \<and> d * d \<le> n \<longrightarrow> n mod d \<noteq> 0" and d: "i + 1 \<le> d \<and> d * d \<le> n"
        then have "i \<le> d \<and> d * d \<le> n" by simp
        moreover from h have "i \<le> d \<and> d * d \<le> n \<longrightarrow> n mod d \<noteq> 0" by (rule spec)
        ultimately show "n mod d \<noteq> 0" by simp
      qed
      finally show ?thesis .
    qed
  next
    case False
    then have "CheckPrimeNumber_loop n i"
      by (subst CheckPrimeNumber_loop.simps) simp
    moreover have "n mod d \<noteq> 0" if "i \<le> d \<and> d * d \<le> n" for d
    proof -
      from that "1.prems" have "i * i \<le> d * d" by (intro mult_mono) simp_all
      with that False show ?thesis by simp
    qed
    ultimately show ?thesis by simp
  qed
qed

lemma is_prime_iff_small:
  "is_prime n \<longleftrightarrow> 1 < n \<and> (\<forall>d. 2 \<le> d \<and> d * d \<le> n \<longrightarrow> n mod d \<noteq> 0)"
proof (intro iffI conjI allI impI)
  assume "is_prime n"
  then show "1 < n" by (simp add: is_prime_def)
next
  fix d
  assume p: "is_prime n" and d: "2 \<le> d \<and> d * d \<le> n"
  then have "2 * d \<le> d * d" by (intro mult_right_mono) simp_all
  with d have "d < n" by linarith
  with p d have "\<not> d dvd n" by (simp add: is_prime_def)
  then show "n mod d \<noteq> 0" by (simp add: dvd_eq_mod_eq_0)
next
  assume a: "1 < n \<and> (\<forall>d. 2 \<le> d \<and> d * d \<le> n \<longrightarrow> n mod d \<noteq> 0)"
  then have a1: "1 < n" and a2: "\<forall>d. 2 \<le> d \<and> d * d \<le> n \<longrightarrow> n mod d \<noteq> 0"
    by (rule conjunct1, rule conjunct2)
  have "\<not> d dvd n" if d: "d \<in> {2..<n}" for d
  proof
    assume "d dvd n"
    then obtain e where e: "n = d * e" by (auto simp: dvd_def)
    from d have d2: "2 \<le> d" "d < n" by simp_all
    have e2: "2 \<le> e"
    proof (rule ccontr)
      assume "\<not> 2 \<le> e"
      then have "e \<le> 1" by simp
      then have "d * e \<le> d * 1" using d2 by (intro mult_left_mono) simp_all
      with e d2 show False by simp
    qed
    define m where "m = min d e"
    have m2: "2 \<le> m" using d2 e2 by (simp add: m_def)
    have "m \<le> d" "m \<le> e" "0 \<le> m" using m2 by (simp_all add: m_def)
    then have "m * m \<le> d * e" using d2 by (intro mult_mono) simp_all
    then have mm: "m * m \<le> n" using e by simp
    have "m dvd n" using e by (auto simp: m_def min_def)
    then have "n mod m = 0" by (simp add: dvd_eq_mod_eq_0)
    moreover from a2 have "2 \<le> m \<and> m * m \<le> n \<longrightarrow> n mod m \<noteq> 0" by (rule spec)
    ultimately show False using m2 mm by simp
  qed
  with a1 show "is_prime n" by (simp add: is_prime_def)
qed

lemma CheckPrimeNumber_correct: "CheckPrimeNumber n \<longleftrightarrow> is_prime n"
proof (cases "n \<le> 1")
  case True
  then show ?thesis by (simp add: CheckPrimeNumber_def is_prime_def)
next
  case n1: False
  show ?thesis
  proof (cases "n = 2")
    case True
    then show ?thesis by (simp add: CheckPrimeNumber_def is_prime_def)
  next
    case False
    with n1 have "CheckPrimeNumber n = CheckPrimeNumber_loop n 2"
      by (simp add: CheckPrimeNumber_def)
    also have "\<dots> \<longleftrightarrow> (\<forall>d. 2 \<le> d \<and> d * d \<le> n \<longrightarrow> n mod d \<noteq> 0)"
      by (rule CheckPrimeNumber_loop_iff) simp
    also have "\<dots> \<longleftrightarrow> is_prime n" using n1 by (simp add: is_prime_iff_small)
    finally show ?thesis .
  qed
qed

lemma is_prime_int: "is_prime (int n) \<longleftrightarrow> nprime n"
proof
  assume p: "is_prime (int n)"
  then have n1: "1 < n" by (simp add: is_prime_def)
  have "d = 1 \<or> d = n" if d: "d dvd n" for d
  proof (rule ccontr)
    assume c: "\<not> (d = 1 \<or> d = n)"
    have "d \<noteq> 0"
    proof
      assume "d = 0"
      with d have "n = 0" by simp
      with n1 show False by simp
    qed
    moreover from d n1 have "d \<le> n" by (auto intro: dvd_imp_le)
    ultimately have "int d \<in> {2..<int n}" using c by auto
    with p have "\<not> int d dvd int n" unfolding is_prime_def by (simp del: int_dvd_int_iff)
    with d show False by simp
  qed
  with n1 show "nprime n" by (simp add: nprime_def)
next
  assume p: "nprime n"
  then have n1: "1 < n" by (simp add: nprime_def)
  have "\<not> d dvd int n" if d: "d \<in> {2..<int n}" for d
  proof
    assume dv: "d dvd int n"
    from d have "int (nat d) = d" by simp
    with dv have "nat d dvd n" by (metis int_dvd_int_iff)
    with p have "nat d = 1 \<or> nat d = n" by (simp add: nprime_def)
    with d show False by auto
  qed
  with n1 show "is_prime (int n)" by (simp add: is_prime_def)
qed

subsection \<open>The largest 32-bit integer is prime\<close>

lemma nprime_151: "nprime 151"
proof -
  have "CheckPrimeNumber 151" by code_simp
  then have "is_prime (int 151)" by (simp add: CheckPrimeNumber_correct)
  then show ?thesis by (simp only: is_prime_int)
qed

lemma nprime_331: "nprime 331"
proof -
  have "CheckPrimeNumber 331" by code_simp
  then have "is_prime (int 331)" by (simp add: CheckPrimeNumber_correct)
  then show ?thesis by (simp only: is_prime_int)
qed

lemma modpow_full: "modpow 7 2147483646 2147483647 = 1"
  by (simp add: modpow.simps)

lemma modpow_151: "modpow 7 14221746 2147483647 = 535044134"
  by (simp add: modpow.simps)

lemma modpow_331: "modpow 7 6487866 2147483647 = 1761855083"
  by (simp add: modpow.simps)

lemma coprime_151: "coprime (535044133 :: int) 2147483647"
  by code_simp

lemma coprime_331: "coprime (1761855082 :: int) 2147483647"
  by code_simp

lemma nprime_INT_MAX: "nprime 2147483647"
proof (rule pocklington2 [where ?q1.0 = 151 and ?q2.0 = 331 and a = 7])
  show "(1::nat) < 2147483647" by simp
  show "nprime 151" by (rule nprime_151)
  show "nprime 331" by (rule nprime_331)
  show "(151::nat) dvd 2147483647 - 1" by simp
  show "(331::nat) dvd 2147483647 - 1" by simp
  show "(151::nat) \<noteq> 331" by simp
  show "(2147483647::nat) < (151 * 331 + 1) * (151 * 331 + 1)" by simp
  have s: "(2147483647::nat) - 1 = 2147483646" by simp
  have e0: "(7::nat) ^ 2147483646 mod 2147483647 = 1"
    using modpow_full by (simp only: modpow_eq)
  show "(7::nat) ^ (2147483647 - 1) mod 2147483647 = 1"
    by (simp only: s e0)
  have d1: "(2147483647 - 1) div 151 = (14221746::nat)" by simp
  have e1: "(7::nat) ^ 14221746 mod 2147483647 = 535044134"
    using modpow_151 by (simp only: modpow_eq)
  show "coprime (int (7 ^ ((2147483647 - 1) div 151) mod 2147483647) - 1) (int 2147483647)"
    unfolding d1 e1 using coprime_151 by simp
  have d2: "(2147483647 - 1) div 331 = (6487866::nat)" by simp
  have e2: "(7::nat) ^ 6487866 mod 2147483647 = 1761855083"
    using modpow_331 by (simp only: modpow_eq)
  show "coprime (int (7 ^ ((2147483647 - 1) div 331) mod 2147483647) - 1) (int 2147483647)"
    unfolding d2 e2 using coprime_331 by simp
qed

lemma is_prime_INT_MAX: "is_prime INT_MAX"
proof -
  have "is_prime (int 2147483647)" by (simp only: is_prime_int nprime_INT_MAX)
  then show ?thesis by (simp add: INT_MAX_def)
qed

subsection \<open>FindBiggerPrimeNumber returns the next prime\<close>

lemma FindBiggerPrimeNumber_loop_next:
  "i < INT_MAX \<Longrightarrow>
   \<exists>p. FindBiggerPrimeNumber_loop i = Some p \<and> i < p \<and> is_prime p \<and>
       (\<forall>q. i < q \<and> q < p \<longrightarrow> \<not> is_prime q)"
proof (induction i rule: FindBiggerPrimeNumber_loop.induct)
  case (1 i)
  show ?case
  proof (cases "CheckPrimeNumber (i + 1)")
    case True
    then have "FindBiggerPrimeNumber_loop i = Some (i + 1)"
      using "1.prems" by (subst FindBiggerPrimeNumber_loop.simps) simp
    moreover have "is_prime (i + 1)" using True by (simp add: CheckPrimeNumber_correct)
    moreover have "\<forall>q. i < q \<and> q < i + 1 \<longrightarrow> \<not> is_prime q" by auto
    ultimately show ?thesis by simp
  next
    case False
    then have np: "\<not> is_prime (i + 1)" by (simp add: CheckPrimeNumber_correct)
    with is_prime_INT_MAX have "i + 1 \<noteq> INT_MAX" by auto
    with "1.prems" have lt: "i + 1 < INT_MAX" by simp
    have eq: "FindBiggerPrimeNumber_loop i = FindBiggerPrimeNumber_loop (i + 1)"
      using "1.prems" False by (subst FindBiggerPrimeNumber_loop.simps) simp
    from "1.IH" [OF _ False lt] "1.prems"
    obtain p where p: "FindBiggerPrimeNumber_loop (i + 1) = Some p" "i + 1 < p" "is_prime p"
      "\<forall>q. i + 1 < q \<and> q < p \<longrightarrow> \<not> is_prime q"
      by auto
    have "\<not> is_prime q" if q: "i < q \<and> q < p" for q
    proof (cases "q = i + 1")
      case True
      with np show ?thesis by simp
    next
      case False
      with q have "i + 1 < q \<and> q < p" by simp
      moreover from p(4) have "i + 1 < q \<and> q < p \<longrightarrow> \<not> is_prime q" by (rule spec)
      ultimately show ?thesis by simp
    qed
    with p eq show ?thesis by simp
  qed
qed

lemma is_prime_13: "is_prime 13"
proof -
  have "CheckPrimeNumber 13" by code_simp
  then show ?thesis by (simp add: CheckPrimeNumber_correct)
qed

lemma FindBiggerPrimeNumber_1: "FindBiggerPrimeNumber 1 = Some 13"
  by (simp add: FindBiggerPrimeNumber_def)

lemma FindBiggerPrimeNumber_13: "FindBiggerPrimeNumber 13 = Some 17"
  by code_simp

lemma FindBiggerPrimeNumber_25: "FindBiggerPrimeNumber 25 = Some 29"
  by code_simp

text \<open>
  Claim C1, as stated, fails: 13 is prime, so the smallest prime greater than or equal to
  13 is 13 itself, but \<open>FindBiggerPrimeNumber(13)\<close> returns 17. The search starts at
  \<open>number + 1\<close>.
\<close>

theorem C1_counterexample: "is_prime 13 \<and> FindBiggerPrimeNumber 13 = Some 17"
  using is_prime_13 FindBiggerPrimeNumber_13 by simp

text \<open>
  Claim C1, amended: for every \<open>n < 13\<close> the function returns 13, and for every
  \<open>13 \<le> n < INT_MAX\<close> it returns the smallest prime strictly greater than \<open>n\<close>.
\<close>

theorem C1_FindBiggerPrimeNumber_next_prime:
  "(n < 13 \<longrightarrow> FindBiggerPrimeNumber n = Some 13) \<and>
   (13 \<le> n \<and> n < INT_MAX \<longrightarrow>
      (\<exists>p. FindBiggerPrimeNumber n = Some p \<and> n < p \<and> is_prime p \<and>
           (\<forall>q. n < q \<and> q < p \<longrightarrow> \<not> is_prime q)))"
proof (intro conjI impI)
  assume "n < 13"
  then show "FindBiggerPrimeNumber n = Some 13" by (simp add: FindBiggerPrimeNumber_def)
next
  assume n: "13 \<le> n \<and> n < INT_MAX"
  then have "FindBiggerPrimeNumber n = FindBiggerPrimeNumber_loop n"
    by (simp add: FindBiggerPrimeNumber_def)
  with FindBiggerPrimeNumber_loop_next [of n] n
  show "\<exists>p. FindBiggerPrimeNumber n = Some p \<and> n < p \<and> is_prime p \<and>
           (\<forall>q. n < q \<and> q < p \<longrightarrow> \<not> is_prime q)"
    by simp
qed

theorem C1_witness:
  "FindBiggerPrimeNumber 5 = Some 13 \<and>
   (\<exists>p. FindBiggerPrimeNumber 100 = Some p \<and> 100 < p \<and> is_prime p \<and>
        (\<forall>q. 100 < q \<and> q < p \<longrightarrow> \<not> is_prime q))"
  using C1_FindBiggerPrimeNumber_next_prime [of 5] C1_FindBiggerPrimeNumber_next_prime [of 100]
  by (simp add: INT_MAX_def)

text \<open>
  Claim C8, as stated, fails at the largest \<open>int\<close>: the increment \<open>i++\<close> overflows
  before any candidate is tested, so no prime is returned.
\<close>

theorem C8_counterexample: "FindBiggerPrimeNumber 2147483647 = None"
  by (simp add: FindBiggerPrimeNumber_def FindBiggerPrimeNumber_loop.simps INT_MAX_def)

text \<open>
  Claim C8, amended: \<open>FindBiggerPrimeNumber(1) = 13\<close>, \<open>FindBiggerPrimeNumber(13) = 17\<close>,
  \<open>FindBiggerPrimeNumber(25) = 29\<close>, and for every \<open>n < INT_MAX\<close> the function returns
  a prime that is at least \<open>max(n, 13)\<close>.
\<close>

theorem C8_FindBiggerPrimeNumber_values_and_bound:
  "FindBiggerPrimeNumber 1 = Some 13 \<and>
   FindBiggerPrimeNumber 13 = Some 17 \<and>
   FindBiggerPrimeNumber 25 = Some 29 \<and>
   (\<forall>n. n < INT_MAX \<longrightarrow>
      (\<exists>p. FindBiggerPrimeNumber n = Some p \<and> is_prime p \<and> max n 13 \<le> p))"
proof (intro conjI allI impI)
  show "FindBiggerPrimeNumber 1 = Some 13" by (rule FindBiggerPrimeNumber_1)
  show "FindBiggerPrimeNumber 13 = Some 17" by (rule FindBiggerPrimeNumber_13)
  show "FindBiggerPrimeNumber 25 = Some 29" by (rule FindBiggerPrimeNumber_25)
next
  fix n :: int
  assume n: "n < INT_MAX"
  show "\<exists>p. FindBiggerPrimeNumber n = Some p \<and> is_prime p \<and> max n 13 \<le> p"
  proof (cases "n < 13")
    case True
    then have "FindBiggerPrimeNumber n = Some 13" by (simp add: FindBiggerPrimeNumber_def)
    with True is_prime_13 show ?thesis by simp
  next
    case False
    then have "FindBiggerPrimeNumber n = FindBiggerPrimeNumber_loop n"
      by (simp add: FindBiggerPrimeNumber_def)
    with FindBiggerPrimeNumber_loop_next [OF n] False show ?thesis by auto
  qed
qed

theorem C8_witness:
  "(100::int) < INT_MAX \<and>
   (\<exists>p. FindBiggerPrimeNumber 100 = Some p \<and> is_prime p \<and> max 100 13 \<le> p)"
proof -
  have h: "(100::int) < INT_MAX" by (simp add: INT_MAX_def)
  from C8_FindBiggerPrimeNumber_values_and_bound
  have "\<forall>n. n < INT_MAX \<longrightarrow>
      (\<exists>p. FindBiggerPrimeNumber n = Some p \<and> is_prime p \<and> max n 13 \<le> p)"
    by simp
  then have "100 < INT_MAX \<longrightarrow>
      (\<exists>p. FindBiggerPrimeNumber 100 = Some p \<and> is_prime p \<and> max 100 13 \<le> p)"
    by (rule spec)
  with h show ?thesis by simp
qed

section \<open>The linked list\<close>

subsection \<open>Memory cells and list segments\<close>

lemma load_update_same: "a < length mem \<Longrightarrow> load (mem[a := x]) a = x"
  by (simp add: load_def)

lemma load_update_other: "a \<noteq> b \<Longrightarrow> load (mem[a := x]) b = load mem b"
  by (simp add: load_def)

lemma load_Some_length: "load mem a = Some n \<Longrightarrow> a < length mem"
  by (simp add: load_def split: if_splits)

lemma load_append_old: "a < length mem \<Longrightarrow> load (mem @ [x]) a = load mem a"
  by (simp add: load_def nth_append)

lemma load_append_new: "load (mem @ [x]) (length mem) = x"
  by (simp add: load_def)

lemma next_of_append: "next_of (as @ bs) nx = next_of as (next_of bs nx)"
  by (cases as) simp_all

lemma last_of_append: "last_of (as @ bs) pv = last_of bs (last_of as pv)"
  by (cases as; cases bs) simp_all

lemma dl_seg_append:
  "dl_seg mem pv (as @ bs) nx \<longleftrightarrow>
     dl_seg mem pv as (next_of bs nx) \<and> dl_seg mem (last_of as pv) bs nx"
proof (induction as arbitrary: pv)
  case Nil
  show ?case by simp
next
  case (Cons a as)
  show ?case
  proof (cases "load mem a")
    case None
    then show ?thesis by simp
  next
    case (Some n)
    have "last_of (a # as) pv = last_of as (Some a)" by (cases as) simp_all
    with Some Cons [of "Some a"] show ?thesis by (auto simp: next_of_append)
  qed
qed

lemma dl_seg_live: "dl_seg mem pv as nx \<Longrightarrow> a \<in> set as \<Longrightarrow> \<exists>n. load mem a = Some n"
  by (induction as arbitrary: pv) (auto split: option.splits)

lemma dl_seg_bound: "dl_seg mem pv as nx \<Longrightarrow> a \<in> set as \<Longrightarrow> a < length mem"
  using dl_seg_live load_Some_length by fastforce

lemma dl_seg_update_other:
  "a \<notin> set as \<Longrightarrow> dl_seg (mem[a := x]) pv as nx = dl_seg mem pv as nx"
  by (induction as arbitrary: pv) (auto simp: load_update_other split: option.splits)

lemma dl_seg_extend:
  "dl_seg mem pv as nx \<Longrightarrow> dl_seg (mem @ [x]) pv as nx"
proof (induction as arbitrary: pv)
  case Nil
  show ?case by simp
next
  case (Cons a as)
  then obtain n where n: "load mem a = Some n" by (auto split: option.splits)
  then have "load (mem @ [x]) a = Some n" by (simp add: load_append_old load_Some_length)
  with Cons n show ?case by simp
qed

lemma contents_at_update_other:
  "a \<notin> set as \<Longrightarrow> contents_at (mem[a := x]) as = contents_at mem as"
  by (induction as) (auto simp: contents_at_def load_update_other)

lemma contents_at_extend:
  "\<forall>a\<in>set as. a < length mem \<Longrightarrow> contents_at (mem @ [x]) as = contents_at mem as"
  by (induction as) (auto simp: contents_at_def load_append_old)

lemma contents_at_append:
  "contents_at mem (as @ bs) = contents_at mem as @ contents_at mem bs"
  by (simp add: contents_at_def)

lemma contents_at_Cons:
  "contents_at mem (a # as) = data (the (load mem a)) # contents_at mem as"
  by (simp add: contents_at_def)

lemma contents_at_Nil: "contents_at mem [] = []"
  by (simp add: contents_at_def)

lemma length_contents_at: "length (contents_at mem as) = length as"
  by (simp add: contents_at_def)

lemma contents_at_update_data:
  "load mem a = Some n \<Longrightarrow> data n' = data n \<Longrightarrow>
   contents_at (mem[a := Some n']) as = contents_at mem as"
proof (induction as)
  case Nil
  show ?case by (simp add: contents_at_def)
next
  case (Cons b bs)
  have "data (the (load (mem[a := Some n']) b)) = data (the (load mem b))"
  proof (cases "b = a")
    case True
    with Cons.prems show ?thesis by (simp add: load_update_same load_Some_length)
  next
    case False
    then show ?thesis by (simp add: load_update_other)
  qed
  with Cons show ?case by (simp add: contents_at_def)
qed

lemma set_next_Some:
  "load mem a = Some n \<Longrightarrow> set_next mem (Some a) v = Some (mem[a := Some (n\<lparr>next_node := v\<rparr>)])"
  by (simp add: set_next_def)

lemma set_prev_Some:
  "load mem a = Some n \<Longrightarrow> set_prev mem (Some a) v = Some (mem[a := Some (n\<lparr>prev_node := v\<rparr>)])"
  by (simp add: set_prev_def)

lemma dl_seg_set_prev_first:
  assumes "dl_seg mem pv (a # as) nx" and "a \<notin> set as" and "load mem a = Some n"
  shows "dl_seg (mem[a := Some (n\<lparr>prev_node := v\<rparr>)]) v (a # as) nx"
  using assms by (simp add: load_update_same load_Some_length dl_seg_update_other)

lemma dl_seg_set_next_last:
  assumes "dl_seg mem pv (as @ [a]) nx" and "a \<notin> set as" and "load mem a = Some n"
  shows "dl_seg (mem[a := Some (n\<lparr>next_node := v\<rparr>)]) pv (as @ [a]) v"
  using assms
  by (simp add: dl_seg_append load_update_same load_Some_length dl_seg_update_other)

lemma dl_seg_change_next:
  "dl_seg mem pv as nx \<Longrightarrow> as = [] \<Longrightarrow> dl_seg mem pv as nx'"
  by simp

subsection \<open>The traversal loops on a well-formed chain\<close>

lemma searchByKeyInList_loop_seg:
  "dl_seg (nodes l) pv as None \<Longrightarrow>
   searchByKeyInList_loop l k (next_of as None) =
     Some (case List.find (\<lambda>x. equalElement l x k) (contents_at (nodes l) as) of
             None \<Rightarrow> None
           | Some x \<Rightarrow> copyElement l x)"
proof (induction as arbitrary: pv)
  case Nil
  show ?case by (subst searchByKeyInList_loop.simps) (simp add: contents_at_def)
next
  case (Cons a as)
  from Cons.prems obtain n where n: "load (nodes l) a = Some n" "next_node n = next_of as None"
    "dl_seg (nodes l) (Some a) as None"
    by (auto split: option.splits)
  show ?case
  proof (cases "equalElement l (data n) k")
    case True
    with n show ?thesis
      by (subst searchByKeyInList_loop.simps) (simp add: contents_at_def)
  next
    case False
    with n Cons.IH [OF n(3)] show ?thesis
      by (subst searchByKeyInList_loop.simps) (simp add: contents_at_def)
  qed
qed

lemma getDataByIndex_walk_seg:
  "dl_seg mem pv as None \<Longrightarrow> k < length as \<Longrightarrow>
   getDataByIndex_walk mem (next_of as None) k = Some (Some (as ! k))"
proof (induction k arbitrary: as pv)
  case 0
  then show ?case by (cases as) simp_all
next
  case (Suc k)
  then obtain a bs where as: "as = a # bs" by (cases as) auto
  with Suc.prems obtain n where n: "load mem a = Some n" "next_node n = next_of bs None"
    "dl_seg mem (Some a) bs None"
    by (auto split: option.splits)
  from Suc.prems as have "k < length bs" by simp
  from Suc.IH [OF n(3) this] n as show ?case by (simp add: get_node_def)
qed

lemma deleteNode_loop_no_match:
  "dl_seg (nodes l) pv as None \<Longrightarrow>
   \<forall>x\<in>set (contents_at (nodes l) as). \<not> equalElement l x k \<Longrightarrow>
   deleteNode_loop l w k (next_of as None) = Some (no_element, l, w)"
proof (induction as arbitrary: pv)
  case Nil
  show ?case by (subst deleteNode_loop.simps) simp
next
  case (Cons a as)
  from Cons.prems(1) obtain n where n: "load (nodes l) a = Some n" "next_node n = next_of as None"
    "dl_seg (nodes l) (Some a) as None"
    by (auto split: option.splits)
  from Cons.prems(2) n have "\<not> equalElement l (data n) k"
    and "\<forall>x\<in>set (contents_at (nodes l) as). \<not> equalElement l x k"
    by (simp_all add: contents_at_def)
  with n Cons.IH [OF n(3)] show ?case
    by (subst deleteNode_loop.simps) simp
qed

lemma deleteNode_loop_match:
  "dl_seg (nodes l) pv (as @ c # bs) None \<Longrightarrow>
   \<forall>x\<in>set (contents_at (nodes l) as). \<not> equalElement l x k \<Longrightarrow>
   equalElement l (data (the (load (nodes l) c))) k \<Longrightarrow>
   deleteNode_loop l w k (next_of (as @ c # bs) None) = deleteNode_unlink l w c"
proof (induction as arbitrary: pv)
  case Nil
  then obtain n where n: "load (nodes l) c = Some n" by (auto split: option.splits)
  with Nil show ?case by (subst deleteNode_loop.simps) simp
next
  case (Cons a as)
  from Cons.prems(1) obtain n where n: "load (nodes l) a = Some n"
    "next_node n = next_of (as @ c # bs) None" "dl_seg (nodes l) (Some a) (as @ c # bs) None"
    by (auto split: option.splits)
  from Cons.prems(2) n have ne: "\<not> equalElement l (data n) k"
    and rest: "\<forall>x\<in>set (contents_at (nodes l) as). \<not> equalElement l x k"
    by (simp_all add: contents_at_def)
  have "deleteNode_loop l w k (next_of ((a # as) @ c # bs) None) =
        deleteNode_loop l w k (next_of (as @ c # bs) None)"
    using n ne by (subst deleteNode_loop.simps) simp
  with Cons.IH [OF n(3) rest Cons.prems(3)] show ?case by simp
qed

subsection \<open>appendNode links the new node at the tail\<close>

lemma dl_seg_cong:
  "\<forall>b\<in>set as. load mem' b = load mem b \<Longrightarrow> dl_seg mem' pv as nx = dl_seg mem pv as nx"
  by (induction as arbitrary: pv) (auto split: option.splits)

lemma contents_at_cong:
  "\<forall>b\<in>set as. load mem' b = load mem b \<Longrightarrow> contents_at mem' as = contents_at mem as"
  by (simp add: contents_at_def)

lemma list_inv_bound: "list_inv l as \<Longrightarrow> a \<in> set as \<Longrightarrow> a < length (nodes l)"
  by (auto simp: list_inv_def dest: dl_seg_bound)

lemma list_inv_fresh: "list_inv l as \<Longrightarrow> length (nodes l) \<notin> set as"
  using list_inv_bound by fastforce

lemma createNode_ok:
  "copyElement l e = Some c \<Longrightarrow>
   createNode True (Some e) l =
     (Some (length (nodes l)),
      l\<lparr>nodes := nodes l @ [Some \<lparr>next_node = None, prev_node = None, data = c\<rparr>]\<rparr>)"
  by (simp add: createNode_def)

lemma createNode_fail:
  "\<not> m \<or> copyElement l e = None \<Longrightarrow> createNode m (Some e) l = (None, l)"
  by (auto simp: createNode_def)

lemma appendNode_s_empty:
  assumes inv: "list_inv l []" and cp: "copyElement l e = Some c"
  shows "appendNode_s True l e =
           Some (success,
                 l\<lparr>nodes := nodes l @ [Some \<lparr>next_node = None, prev_node = None, data = c\<rparr>],
                   head := Some (length (nodes l)), count_elements := 1,
                   tail := Some (length (nodes l))\<rparr>)"
proof -
  from inv have h: "head l = None" by (simp add: list_inv_def)
  show ?thesis
    by (simp add: appendNode_s_def h createNode_ok [OF cp] Let_def set_next_def set_prev_def
        load_append_new load_update_same)
qed

lemma appendNode_s_nonempty:
  assumes inv: "list_inv l (bs @ [t])" and cp: "copyElement l e = Some c"
    and len: "count_elements l \<noteq> INT_MAX" and tn: "load (nodes l) t = Some n"
  shows "appendNode_s True l e =
           Some (success,
                 l\<lparr>nodes := (nodes l @ [Some \<lparr>next_node = None, prev_node = None, data = c\<rparr>])
                              [t := Some (n\<lparr>next_node := Some (length (nodes l))\<rparr>),
                               length (nodes l) :=
                                 Some \<lparr>next_node = None, prev_node = Some t, data = c\<rparr>],
                   tail := Some (length (nodes l)),
                   count_elements := count_elements l + 1\<rparr>)"
proof -
  from inv obtain b where h: "head l = Some b" by (cases bs) (auto simp: list_inv_def)
  from inv have t: "tail l = Some t" by (cases bs) (auto simp: list_inv_def)
  have tl: "t < length (nodes l)" using tn by (rule load_Some_length)
  then have ne: "t \<noteq> length (nodes l)" by simp
  show ?thesis
    using tl ne len
    by (simp add: appendNode_s_def h t createNode_ok [OF cp] Let_def set_next_def set_prev_def
        get_node_def load_append_new load_append_old load_update_same load_update_other tn
        list_update_swap)
qed

lemma appendNode_s_success:
  assumes inv: "list_inv l as" and cp: "copyElement l e = Some c"
    and len: "count_elements l \<noteq> INT_MAX"
  shows "\<exists>l'. appendNode_s True l e = Some (success, l') \<and>
              list_inv l' (as @ [length (nodes l)]) \<and>
              contents_at (nodes l') (as @ [length (nodes l)]) = contents_at (nodes l) as @ [c] \<and>
              copyElement l' = copyElement l \<and> freeElement l' = freeElement l \<and>
              printElement l' = printElement l \<and> equalElement l' = equalElement l"
proof (cases as rule: rev_cases)
  case Nil
  with inv have inv0: "list_inv l []" by simp
  show ?thesis
    unfolding appendNode_s_empty [OF inv0 cp] Nil
    by (simp add: list_inv_def load_append_new contents_at_def)
next
  case (snoc bs t)
  define a where "a = length (nodes l)"
  from inv snoc have inv1: "list_inv l (bs @ [t])" by simp
  then have seg: "dl_seg (nodes l) None (bs @ [t]) None" and dist: "distinct (bs @ [t])"
    and cnt: "count_elements l = int (length (bs @ [t]))"
    and hd: "head l = next_of (bs @ [t]) None"
    by (simp_all add: list_inv_def)
  from seg obtain n where tn: "load (nodes l) t = Some n"
    using dl_seg_live [OF seg, of t] by auto
  have bound: "\<forall>b\<in>set (bs @ [t]). b < a"
    using list_inv_bound [OF inv1] by (simp add: a_def)
  then have ta: "t < a" and ba: "\<forall>b\<in>set bs. b < a" by simp_all
  define mem' where "mem' = (nodes l @ [Some \<lparr>next_node = None, prev_node = None, data = c\<rparr>])
        [t := Some (n\<lparr>next_node := Some a\<rparr>),
         a := Some \<lparr>next_node = None, prev_node = Some t, data = c\<rparr>]"
  have la: "load mem' a = Some \<lparr>next_node = None, prev_node = Some t, data = c\<rparr>"
    by (simp add: mem'_def a_def load_update_same)
  have lt: "load mem' t = Some (n\<lparr>next_node := Some a\<rparr>)"
    using ta by (simp add: mem'_def a_def load_update_same load_update_other)
  have lo: "load mem' b = load (nodes l) b" if "b \<in> set bs" for b
  proof -
    from that ba dist have "b < a" "b \<noteq> t" by auto
    then show ?thesis by (simp add: mem'_def a_def load_update_other load_append_old)
  qed
  from seg have s1: "dl_seg (nodes l) None bs (Some t)"
    and s2: "dl_seg (nodes l) (last_of bs None) [t] None"
    by (simp_all add: dl_seg_append)
  have s1': "dl_seg mem' None bs (Some t)"
    using s1 lo by (simp add: dl_seg_cong [of bs mem' "nodes l"])
  have pn: "prev_node n = last_of bs None" using s2 tn by simp
  have segf: "dl_seg mem' None ((bs @ [t]) @ [a]) None"
    using s1' pn by (simp add: dl_seg_append last_of_append la lt)
  have distf: "distinct ((bs @ [t]) @ [a])" using dist bound by auto
  have cont: "contents_at mem' ((bs @ [t]) @ [a]) = contents_at (nodes l) (bs @ [t]) @ [c]"
    using lo la lt tn by (simp add: contents_at_def)
  have app: "appendNode_s True l e =
      Some (success, l\<lparr>nodes := mem', tail := Some a, count_elements := count_elements l + 1\<rparr>)"
    unfolding mem'_def a_def by (rule appendNode_s_nonempty [OF inv1 cp len tn])
  have hd': "head l = next_of ((bs @ [t]) @ [a]) None"
    using hd by (cases bs) simp_all
  show ?thesis
    unfolding app snoc
    using segf distf cont hd' cnt
    by (simp add: list_inv_def last_of_append a_def)
qed

lemma appendNode_s_fail:
  assumes inv: "list_inv l as" and f: "\<not> m \<or> copyElement l e = None"
  shows "appendNode_s m l e = Some (Memory_Problem, l)"
proof (cases as rule: rev_cases)
  case Nil
  with inv have "head l = None" by (simp add: list_inv_def)
  then show ?thesis
    by (simp add: appendNode_s_def createNode_fail [OF f])
next
  case (snoc bs t)
  with inv have inv1: "list_inv l (bs @ [t])" by simp
  then obtain b where h: "head l = Some b" by (cases bs) (auto simp: list_inv_def)
  from inv1 have t: "tail l = Some t" by (cases bs) (auto simp: list_inv_def)
  from inv1 have seg: "dl_seg (nodes l) None (bs @ [t]) None" by (simp add: list_inv_def)
  then obtain n where tn: "load (nodes l) t = Some n" "next_node n = None"
    by (auto simp: dl_seg_append split: option.splits)
  have tl: "t < length (nodes l)" using tn(1) by (rule load_Some_length)
  have "n\<lparr>next_node := None\<rparr> = n" using tn(2) by simp
  moreover have "(nodes l)[t := Some n] = nodes l"
    using tn(1) tl by (simp add: load_def list_update_same_conv)
  ultimately have e: "(nodes l)[t := Some (n\<lparr>next_node := None\<rparr>)] = nodes l" by simp
  show ?thesis
    using tl tn
    by (simp add: appendNode_s_def h t createNode_fail [OF f] set_next_def get_node_def
        load_update_same e)
qed

subsection \<open>deleteNode unlinks the matching node\<close>

lemma list_inv_parts:
  assumes "list_inv l (as1 @ c # as2)"
  shows "dl_seg (nodes l) None as1 (Some c)"
    and "\<exists>n. load (nodes l) c = Some n \<and> prev_node n = last_of as1 None \<and>
             next_node n = next_of as2 None"
    and "dl_seg (nodes l) (Some c) as2 None"
    and "c \<notin> set as1" and "c \<notin> set as2" and "distinct as1" and "distinct as2"
    and "set as1 \<inter> set as2 = {}"
    and "count_elements l = int (length as1) + 1 + int (length as2)"
    and "head l = next_of (as1 @ [c]) None"
    and "tail l = last_of (c # as2) None"
proof -
  from assms have seg: "dl_seg (nodes l) None (as1 @ c # as2) None"
    and dist: "distinct (as1 @ c # as2)"
    and cnt: "count_elements l = int (length (as1 @ c # as2))"
    and hd: "head l = next_of (as1 @ c # as2) None"
    and tl: "tail l = last_of (as1 @ c # as2) None"
    by (simp_all add: list_inv_def)
  from seg show "dl_seg (nodes l) None as1 (Some c)" by (simp add: dl_seg_append)
  from seg show "\<exists>n. load (nodes l) c = Some n \<and> prev_node n = last_of as1 None \<and>
             next_node n = next_of as2 None"
    by (auto simp: dl_seg_append split: option.splits)
  from seg show "dl_seg (nodes l) (Some c) as2 None"
    by (auto simp: dl_seg_append split: option.splits)
  from dist show "c \<notin> set as1" "c \<notin> set as2" "distinct as1" "distinct as2"
    "set as1 \<inter> set as2 = {}"
    by auto
  from cnt show "count_elements l = int (length as1) + 1 + int (length as2)" by simp
  from hd show "head l = next_of (as1 @ [c]) None" by (cases as1) simp_all
  from tl show "tail l = last_of (c # as2) None" by (simp add: last_of_append)
qed

lemma count_not_INT_MIN: "count_elements l = int k \<Longrightarrow> count_elements l \<noteq> INT_MIN"
  by (simp add: INT_MIN_def)

lemma deleteNode_unlink_single:
  assumes inv: "list_inv l [c]" and n: "load (nodes l) c = Some n"
    and fr: "freeElement l (data n) w = Some w1"
  shows "deleteNode_unlink l w c =
           Some (success,
                 l\<lparr>nodes := (nodes l)[c := None], count_elements := 0,
                   head := None, tail := None\<rparr>, w1)"
proof -
  from inv n have "head l = Some c" "next_node n = None" "count_elements l = 1"
    by (simp_all add: list_inv_def)
  then show ?thesis
    using n fr by (simp add: deleteNode_unlink_def Let_def INT_MIN_def)
qed

lemma deleteNode_unlink_head:
  assumes inv: "list_inv l (c # b # bs)" and n: "load (nodes l) c = Some n"
    and nb: "load (nodes l) b = Some nb"
    and fr: "freeElement l (data n) w = Some w1"
  shows "deleteNode_unlink l w c =
           Some (success,
                 l\<lparr>nodes := (nodes l)[b := Some (nb\<lparr>prev_node := None\<rparr>), c := None],
                   head := Some b, count_elements := count_elements l - 1\<rparr>, w1)"
proof -
  from inv n have f: "head l = Some c" "next_node n = Some b"
    "count_elements l = 2 + int (length bs)" "c \<noteq> b"
    by (auto simp: list_inv_def)
  then have "count_elements l \<noteq> INT_MIN" "count_elements l - 1 \<noteq> 0"
    by (simp_all add: INT_MIN_def)
  with f show ?thesis
    using n nb fr
    by (simp add: deleteNode_unlink_def Let_def set_prev_def load_update_other)
qed

lemma deleteNode_unlink_tail:
  assumes inv: "list_inv l (ds @ [p, c])" and n: "load (nodes l) c = Some n"
    and np: "load (nodes l) p = Some np"
    and fr: "freeElement l (data n) w = Some w1"
  shows "deleteNode_unlink l w c =
           Some (success,
                 l\<lparr>nodes := (nodes l)[p := Some (np\<lparr>next_node := None\<rparr>), c := None],
                   tail := Some p, count_elements := count_elements l - 1\<rparr>, w1)"
proof -
  have e: "ds @ [p, c] = (ds @ [p]) @ c # []" by simp
  note parts = list_inv_parts [OF inv [unfolded e]]
  from parts(2) n have pv: "prev_node n = Some p"
    by (simp add: last_of_append)
  from parts(4) have pc: "p \<noteq> c" by simp
  from parts(10) have "head l \<noteq> Some c" using parts(4) by (cases ds) auto
  then have h: "Some c \<noteq> head l" by metis
  from parts(11) have t: "tail l = Some c" by simp
  from parts(9) have "count_elements l = 2 + int (length ds)" by simp
  then have "count_elements l \<noteq> INT_MIN" "count_elements l - 1 \<noteq> 0"
    by (simp_all add: INT_MIN_def)
  with h t pv pc show ?thesis
    using n np fr
    by (simp add: deleteNode_unlink_def Let_def set_next_def load_update_other)
qed

lemma deleteNode_unlink_middle:
  assumes inv: "list_inv l (ds @ p # c # b # bs)" and n: "load (nodes l) c = Some n"
    and np: "load (nodes l) p = Some np" and nb: "load (nodes l) b = Some nb"
    and fr: "freeElement l (data n) w = Some w1"
  shows "deleteNode_unlink l w c =
           Some (success,
                 l\<lparr>nodes := (nodes l)[p := Some (np\<lparr>next_node := Some b\<rparr>),
                                       b := Some (nb\<lparr>prev_node := Some p\<rparr>), c := None],
                   count_elements := count_elements l - 1\<rparr>, w1)"
proof -
  have e: "ds @ p # c # b # bs = (ds @ [p]) @ c # (b # bs)" by simp
  note parts = list_inv_parts [OF inv [unfolded e]]
  from parts(2) n have pv: "prev_node n = Some p" and nx: "next_node n = Some b"
    by (simp_all add: last_of_append)
  from parts(4) have pc: "p \<noteq> c" by simp
  from parts(5) have bc: "b \<noteq> c" by auto
  from parts(8) have pb: "p \<noteq> b" by auto
  from parts(10) have "head l \<noteq> Some c" using parts(4) by (cases ds) auto
  then have h: "Some c \<noteq> head l" by metis
  from parts(11) have "tail l \<noteq> Some c" using parts(5) by (cases bs) auto
  then have t: "Some c \<noteq> tail l" by metis
  from parts(9) have "count_elements l = 3 + int (length ds) + int (length bs)" by simp
  then have "count_elements l \<noteq> INT_MIN" "count_elements l - 1 \<noteq> 0"
    by (simp_all add: INT_MIN_def)
  with h t pv nx pc bc pb show ?thesis
    using n np nb fr load_Some_length [OF n] load_Some_length [OF np] load_Some_length [OF nb]
    by (simp add: deleteNode_unlink_def Let_def set_next_def set_prev_def load_update_other
        load_update_same)
qed

lemma dl_seg_update_otherI:
  "dl_seg mem pv as nx \<Longrightarrow> a \<notin> set as \<Longrightarrow> dl_seg (mem[a := x]) pv as nx"
  by (simp add: dl_seg_update_other)

lemma dl_seg_appendI:
  "dl_seg mem pv as (next_of bs nx) \<Longrightarrow> dl_seg mem (last_of as pv) bs nx \<Longrightarrow>
   dl_seg mem pv (as @ bs) nx"
  by (simp add: dl_seg_append)

lemma deleteNode_unlink_correct:
  assumes inv: "list_inv l (as1 @ c # as2)" and n: "load (nodes l) c = Some n"
    and fr: "freeElement l (data n) w = Some w1"
  shows "\<exists>l'. deleteNode_unlink l w c = Some (success, l', w1) \<and>
              list_inv l' (as1 @ as2) \<and>
              contents_at (nodes l') (as1 @ as2) = contents_at (nodes l) (as1 @ as2) \<and>
              copyElement l' = copyElement l \<and> freeElement l' = freeElement l \<and>
              printElement l' = printElement l \<and> equalElement l' = equalElement l"
proof -
  note parts = list_inv_parts [OF inv]
  show ?thesis
  proof (cases as1 rule: rev_cases)
    case Nil
    show ?thesis
    proof (cases as2)
      case Nil2: Nil
      from inv Nil Nil2 have "list_inv l [c]" by simp
      from deleteNode_unlink_single [OF this n fr] show ?thesis
        by (simp add: Nil Nil2 list_inv_def contents_at_def)
    next
      case (Cons b bs)
      from inv Nil Cons have inv1: "list_inv l (c # b # bs)" by simp
      from parts(3) Cons obtain nb where nb: "load (nodes l) b = Some nb"
        by (auto split: option.splits)
      define mem' where "mem' = (nodes l)[b := Some (nb\<lparr>prev_node := None\<rparr>), c := None]"
      from parts(7) Cons have bb: "b \<notin> set bs" by simp
      from parts(5) Cons have cb: "c \<notin> set (b # bs)" by simp
      have "dl_seg ((nodes l)[b := Some (nb\<lparr>prev_node := None\<rparr>)]) None (b # bs) None"
        using parts(3) bb nb unfolding Cons by (rule dl_seg_set_prev_first)
      then have seg: "dl_seg mem' None (b # bs) None"
        unfolding mem'_def using cb by (rule dl_seg_update_otherI)
      have cont: "contents_at mem' (b # bs) = contents_at (nodes l) (b # bs)"
        using cb nb by (simp add: mem'_def contents_at_update_other contents_at_update_data)
      from parts(11) Cons have tl: "tail l = last_of (b # bs) None" by simp
      from parts(9) Nil Cons have cnt: "count_elements l - 1 = int (length (b # bs))" by simp
      from deleteNode_unlink_head [OF inv1 n nb fr] seg cont tl cnt parts(7) show ?thesis
        by (simp add: Nil Cons list_inv_def mem'_def del: dl_seg.simps)
    qed
  next
    case (snoc ds p)
    from parts(1) snoc obtain np where np: "load (nodes l) p = Some np"
      by (auto simp: dl_seg_append split: option.splits)
    from parts(6) snoc have pd: "p \<notin> set ds" by simp
    from parts(4) snoc have cd: "c \<notin> set (ds @ [p])" by simp
    from parts(10) snoc have hd: "head l = next_of (ds @ [p]) None" by (cases ds) simp_all
    show ?thesis
    proof (cases as2)
      case Nil
      from inv snoc Nil have inv1: "list_inv l (ds @ [p, c])" by simp
      define mem' where "mem' = (nodes l)[p := Some (np\<lparr>next_node := None\<rparr>), c := None]"
      have "dl_seg ((nodes l)[p := Some (np\<lparr>next_node := None\<rparr>)]) None (ds @ [p]) None"
        using parts(1) pd np unfolding snoc by (rule dl_seg_set_next_last)
      then have seg: "dl_seg mem' None (ds @ [p]) None"
        unfolding mem'_def using cd by (rule dl_seg_update_otherI)
      have cont: "contents_at mem' (ds @ [p]) = contents_at (nodes l) (ds @ [p])"
        using cd np by (simp add: mem'_def contents_at_update_other contents_at_update_data)
      from parts(9) snoc Nil have cnt: "count_elements l - 1 = int (length (ds @ [p]))" by simp
      from deleteNode_unlink_tail [OF inv1 n np fr] seg cont cnt hd parts(6) show ?thesis
        by (simp add: snoc Nil list_inv_def mem'_def last_of_append del: dl_seg.simps)
    next
      case (Cons b bs)
      from inv snoc Cons have inv1: "list_inv l (ds @ p # c # b # bs)" by simp
      from parts(3) Cons obtain nb where nb: "load (nodes l) b = Some nb"
        by (auto split: option.splits)
      from parts(7) Cons have bb: "b \<notin> set bs" by simp
      from parts(5) Cons have cb: "c \<notin> set (b # bs)" by simp
      from parts(8) snoc Cons have pb: "p \<notin> set (b # bs)" and bd: "b \<notin> set (ds @ [p])"
        by auto
      define m1 where "m1 = (nodes l)[p := Some (np\<lparr>next_node := Some b\<rparr>)]"
      define m2 where "m2 = m1[b := Some (nb\<lparr>prev_node := Some p\<rparr>)]"
      define mem' where "mem' = m2[c := None]"
      have "dl_seg m1 None (ds @ [p]) (Some b)"
        using parts(1) pd np unfolding snoc m1_def by (rule dl_seg_set_next_last)
      then have "dl_seg m2 None (ds @ [p]) (Some b)"
        unfolding m2_def using bd by (rule dl_seg_update_otherI)
      then have seg1: "dl_seg mem' None (ds @ [p]) (Some b)"
        unfolding mem'_def using cd by (rule dl_seg_update_otherI)
      have sm1: "dl_seg m1 (Some c) (b # bs) None"
        using parts(3) pb unfolding Cons m1_def by (rule dl_seg_update_otherI)
      have nb1: "load m1 b = Some nb"
        using nb pb by (simp add: m1_def load_update_other)
      have "dl_seg m2 (Some p) (b # bs) None"
        unfolding m2_def by (rule dl_seg_set_prev_first [OF sm1 bb nb1])
      then have seg2: "dl_seg mem' (Some p) (b # bs) None"
        unfolding mem'_def using cb by (rule dl_seg_update_otherI)
      have seg: "dl_seg mem' None ((ds @ [p]) @ b # bs) None"
        by (rule dl_seg_appendI) (simp_all add: seg1 seg2 last_of_append del: dl_seg.simps)
      have "contents_at m1 ((ds @ [p]) @ b # bs) = contents_at (nodes l) ((ds @ [p]) @ b # bs)"
        unfolding m1_def using np by (intro contents_at_update_data) simp_all
      moreover have "contents_at m2 ((ds @ [p]) @ b # bs) = contents_at m1 ((ds @ [p]) @ b # bs)"
        unfolding m2_def using nb1 by (intro contents_at_update_data) simp_all
      moreover have "contents_at mem' ((ds @ [p]) @ b # bs) = contents_at m2 ((ds @ [p]) @ b # bs)"
        unfolding mem'_def using cd cb by (intro contents_at_update_other) simp
      ultimately have cont:
        "contents_at mem' ((ds @ [p]) @ b # bs) = contents_at (nodes l) ((ds @ [p]) @ b # bs)"
        by simp
      from parts(9) snoc Cons
      have cnt: "count_elements l - 1 = int (length ((ds @ [p]) @ b # bs))" by simp
      from parts(11) Cons have tl: "tail l = last_of ((ds @ [p]) @ b # bs) None"
        by (simp add: last_of_append)
      from hd have hd': "head l = next_of ((ds @ [p]) @ b # bs) None"
        by (cases ds) simp_all
      from inv snoc Cons have dist: "distinct ((ds @ [p]) @ b # bs)"
        by (auto simp: list_inv_def)
      have res: "deleteNode_unlink l w c =
          Some (success, l\<lparr>nodes := mem', count_elements := count_elements l - 1\<rparr>, w1)"
        unfolding mem'_def m2_def m1_def by (rule deleteNode_unlink_middle [OF inv1 n np nb fr])
      show ?thesis
        unfolding res snoc Cons
        using seg cont cnt tl hd' dist
        by (simp add: list_inv_def del: dl_seg.simps)
    qed
  qed
qed






subsection \<open>The operations in terms of the sequence of elements\<close>

lemma find_decompose:
  "List.find P xs = Some x \<Longrightarrow>
   \<exists>ys zs. xs = ys @ x # zs \<and> (\<forall>y\<in>set ys. \<not> P y) \<and> P x \<and> remove_first P xs = ys @ zs"
proof (induction xs)
  case Nil
  then show ?case by simp
next
  case (Cons a xs)
  show ?case
  proof (cases "P a")
    case True
    with Cons.prems have "a = x" by simp
    with True have "a # xs = [] @ x # xs \<and> (\<forall>y\<in>set []. \<not> P y) \<and> P x \<and>
        remove_first P (a # xs) = [] @ xs"
      by simp
    then show ?thesis by blast
  next
    case False
    with Cons.prems have "List.find P xs = Some x" by simp
    from Cons.IH [OF this] obtain ys zs where
      "xs = ys @ x # zs" "\<forall>y\<in>set ys. \<not> P y" "P x" "remove_first P xs = ys @ zs"
      by blast
    with False have "a # xs = (a # ys) @ x # zs \<and> (\<forall>y\<in>set (a # ys). \<not> P y) \<and> P x \<and>
        remove_first P (a # xs) = (a # ys) @ zs"
      by simp
    then show ?thesis by blast
  qed
qed

lemma find_in_set: "List.find P xs = Some x \<Longrightarrow> x \<in> set xs \<and> P x"
  by (induction xs) (auto split: if_splits)

lemma find_None_remove_first: "List.find P xs = None \<Longrightarrow> remove_first P xs = xs"
  by (induction xs) (auto split: if_splits)

lemma contents_at_decompose:
  assumes "contents_at mem as = ys @ x # zs"
  shows "\<exists>as1 c as2. as = as1 @ c # as2 \<and> contents_at mem as1 = ys \<and>
           data (the (load mem c)) = x \<and> contents_at mem as2 = zs"
proof -
  from assms obtain as1 r where r: "as = as1 @ r" "contents_at mem as1 = ys"
    "contents_at mem r = x # zs"
    unfolding contents_at_def by (auto simp: map_eq_append_conv)
  from r(3) obtain c as2 where "r = c # as2" "data (the (load mem c)) = x"
    "contents_at mem as2 = zs"
    unfolding contents_at_def by (auto simp: map_eq_Cons_conv)
  with r show ?thesis by blast
qed

lemma is_list_Nil_iff:
  "is_list l [] \<longleftrightarrow> head l = None \<and> tail l = None \<and> count_elements l = 0"
  by (auto simp: is_list_def list_inv_def contents_at_def)

lemma is_list_count: "is_list l xs \<Longrightarrow> count_elements l = int (length xs)"
  by (auto simp: is_list_def list_inv_def contents_at_def)

lemma searchByKeyInList_loop_is_list:
  assumes "is_list l xs"
  shows "searchByKeyInList_loop l k (head l) =
           Some (case List.find (\<lambda>x. equalElement l x k) xs of
                   None \<Rightarrow> None
                 | Some x \<Rightarrow> copyElement l x)"
proof -
  from assms obtain as where as: "list_inv l as" "contents_at (nodes l) as = xs"
    by (auto simp: is_list_def)
  then have "dl_seg (nodes l) None as None" "head l = next_of as None"
    by (simp_all add: list_inv_def)
  with searchByKeyInList_loop_seg [of l None as k] as(2) show ?thesis by simp
qed

lemma getDataByIndex_is_list:
  assumes l: "is_list l xs" and i: "1 \<le> i" "i \<le> int (length xs)"
  shows "\<exists>cur n. getDataByIndex_walk (nodes l) (head l) (nat (i - 1)) = Some cur \<and>
           get_node (nodes l) cur = Some n \<and> data n = xs ! nat (i - 1)"
proof -
  from l obtain as where as: "list_inv l as" "contents_at (nodes l) as = xs"
    by (auto simp: is_list_def)
  then have seg: "dl_seg (nodes l) None as None" and hd: "head l = next_of as None"
    by (simp_all add: list_inv_def)
  from as(2) have len: "length as = length xs" by (auto simp: contents_at_def)
  with i have k: "nat (i - 1) < length as" by simp
  from getDataByIndex_walk_seg [OF seg k] hd
  have w: "getDataByIndex_walk (nodes l) (head l) (nat (i - 1)) = Some (Some (as ! nat (i - 1)))"
    by simp
  from k have "as ! nat (i - 1) \<in> set as" by simp
  from dl_seg_live [OF seg this] obtain n where n: "load (nodes l) (as ! nat (i - 1)) = Some n"
    by blast
  have "xs ! nat (i - 1) = data (the (load (nodes l) (as ! nat (i - 1))))"
    using as(2) k by (auto simp: contents_at_def)
  with w n show ?thesis by (simp add: get_node_def)
qed

lemma deleteNode_loop_is_list_none:
  assumes l: "is_list l xs" and f: "List.find (\<lambda>x. equalElement l x k) xs = None"
  shows "deleteNode_loop l w k (head l) = Some (no_element, l, w)"
proof -
  from l obtain as where as: "list_inv l as" "contents_at (nodes l) as = xs"
    by (auto simp: is_list_def)
  then have seg: "dl_seg (nodes l) None as None" and hd: "head l = next_of as None"
    by (simp_all add: list_inv_def)
  from f as(2) have "\<forall>x\<in>set (contents_at (nodes l) as). \<not> equalElement l x k"
    by (simp add: find_None_iff)
  from deleteNode_loop_no_match [OF seg this] hd show ?thesis by simp
qed

lemma deleteNode_loop_is_list_some:
  assumes l: "is_list l xs" and f: "List.find (\<lambda>x. equalElement l x k) xs = Some x"
    and fr: "freeElement l x w = Some w1"
  shows "\<exists>l'. deleteNode_loop l w k (head l) = Some (success, l', w1) \<and>
              is_list l' (remove_first (\<lambda>x. equalElement l x k) xs) \<and>
              copyElement l' = copyElement l \<and> freeElement l' = freeElement l \<and>
              printElement l' = printElement l \<and> equalElement l' = equalElement l"
proof -
  from l obtain as where as: "list_inv l as" "contents_at (nodes l) as = xs"
    by (auto simp: is_list_def)
  then have seg: "dl_seg (nodes l) None as None" and hd: "head l = next_of as None"
    by (simp_all add: list_inv_def)
  from find_decompose [OF f] obtain ys zs where d: "xs = ys @ x # zs"
    "\<forall>y\<in>set ys. \<not> equalElement l y k" "equalElement l x k"
    "remove_first (\<lambda>x. equalElement l x k) xs = ys @ zs"
    by blast
  from contents_at_decompose [of "nodes l" as ys x zs] as(2) d(1)
  obtain as1 c as2 where a: "as = as1 @ c # as2" "contents_at (nodes l) as1 = ys"
    "data (the (load (nodes l) c)) = x" "contents_at (nodes l) as2 = zs"
    by auto
  from seg a(1) have seg': "dl_seg (nodes l) None (as1 @ c # as2) None" by simp
  have "c \<in> set as" using a(1) by simp
  from dl_seg_live [OF seg this] obtain n where n: "load (nodes l) c = Some n" by blast
  with a(3) have dn: "data n = x" by simp
  have loop: "deleteNode_loop l w k (head l) = deleteNode_unlink l w c"
    using deleteNode_loop_match [OF seg', of k w] a(2,3) d(2,3) hd a(1) by simp
  from as(1) a(1) have inv: "list_inv l (as1 @ c # as2)" by simp
  from fr dn have fr': "freeElement l (data n) w = Some w1" by simp
  from deleteNode_unlink_correct [OF inv n fr'] obtain l' where
    l': "deleteNode_unlink l w c = Some (success, l', w1)" "list_inv l' (as1 @ as2)"
    "contents_at (nodes l') (as1 @ as2) = contents_at (nodes l) (as1 @ as2)"
    "copyElement l' = copyElement l" "freeElement l' = freeElement l"
    "printElement l' = printElement l" "equalElement l' = equalElement l"
    by blast
  have "contents_at (nodes l') (as1 @ as2) = ys @ zs"
    using l'(3) a(2,4) by (simp add: contents_at_append)
  with l'(2) d(4) have "is_list l' (remove_first (\<lambda>x. equalElement l x k) xs)"
    by (auto simp: is_list_def)
  with loop l' show ?thesis by simp
qed

lemma appendNode_s_is_list:
  assumes l: "is_list l xs" and cp: "copyElement l e = Some c"
    and len: "count_elements l \<noteq> INT_MAX"
  shows "\<exists>l'. appendNode_s True l e = Some (success, l') \<and> is_list l' (xs @ [c]) \<and>
              copyElement l' = copyElement l \<and> freeElement l' = freeElement l \<and>
              printElement l' = printElement l \<and> equalElement l' = equalElement l"
proof -
  from l obtain as where as: "list_inv l as" "contents_at (nodes l) as = xs"
    by (auto simp: is_list_def)
  from appendNode_s_success [OF as(1) cp len] as(2) show ?thesis
    by (auto simp: is_list_def)
qed

lemma appendNode_s_is_list_fail:
  "is_list l xs \<Longrightarrow> \<not> m \<or> copyElement l e = None \<Longrightarrow>
   appendNode_s m l e = Some (Memory_Problem, l)"
  by (auto simp: is_list_def dest: appendNode_s_fail)


subsection \<open>The operations on a list handle\<close>

lemma load_lists_update:
  "load (lists h) p = Some l \<Longrightarrow> load ((lists h)[p := Some l']) p = Some l'"
  by (simp add: load_update_same load_Some_length)

lemma heap_update_same:
  "load (lists h) p = Some l \<Longrightarrow> h\<lparr>lists := (lists h)[p := Some l], world := world h\<rparr> = h"
  by (simp add: load_def list_update_same_conv split: if_splits)

lemma heap_update_same':
  "load (lists h) p = Some l \<Longrightarrow> h\<lparr>lists := (lists h)[p := Some l]\<rparr> = h"
  by (simp add: load_def list_update_same_conv split: if_splits)

lemma appendNode_success:
  assumes p: "load (lists h) p = Some l" and l: "is_list l xs"
    and cp: "copyElement l e = Some c" and len: "count_elements l \<noteq> INT_MAX"
  shows "\<exists>l'. appendNode True (Some p) (Some e) h =
                 Some (success, h\<lparr>lists := (lists h)[p := Some l']\<rparr>) \<and>
              is_list l' (xs @ [c]) \<and>
              copyElement l' = copyElement l \<and> freeElement l' = freeElement l \<and>
              printElement l' = printElement l \<and> equalElement l' = equalElement l"
proof -
  from appendNode_s_is_list [OF l cp len] obtain l' where
    l': "appendNode_s True l e = Some (success, l')" "is_list l' (xs @ [c])"
    "copyElement l' = copyElement l" "freeElement l' = freeElement l"
    "printElement l' = printElement l" "equalElement l' = equalElement l"
    by blast
  from l'(1) p have "appendNode True (Some p) (Some e) h =
      Some (success, h\<lparr>lists := (lists h)[p := Some l']\<rparr>)"
    by (simp add: appendNode_def)
  with l' show ?thesis by blast
qed

lemma appendNode_fail:
  assumes p: "load (lists h) p = Some l" and l: "is_list l xs"
    and f: "\<not> m \<or> copyElement l e = None"
  shows "appendNode m (Some p) (Some e) h = Some (Memory_Problem, h)"
  using appendNode_s_is_list_fail [OF l f] p
  by (simp add: appendNode_def heap_update_same')

lemma getDataByIndex_in_range:
  assumes p: "load (lists h) p = Some l" and l: "is_list l xs"
    and i: "1 \<le> i" "i \<le> int (length xs)"
  shows "getDataByIndex (Some p) i h = Some (copyElement l (xs ! nat (i - 1)))"
proof -
  from getDataByIndex_is_list [OF l i] obtain cur n where
    "getDataByIndex_walk (nodes l) (head l) (nat (i - 1)) = Some cur"
    "get_node (nodes l) cur = Some n" "data n = xs ! nat (i - 1)"
    by blast
  with p i is_list_count [OF l] show ?thesis
    by (simp add: getDataByIndex_def)
qed

lemma getDataByIndex_out_of_range:
  assumes p: "load (lists h) p = Some l" and l: "is_list l xs"
    and i: "i < 1 \<or> int (length xs) < i"
  shows "getDataByIndex (Some p) i h = Some None"
  using p i is_list_count [OF l] by (auto simp: getDataByIndex_def)

lemma searchByKeyInList_found:
  assumes p: "load (lists h) p = Some l" and l: "is_list l xs"
  shows "searchByKeyInList (Some p) (Some k) h =
           Some (case List.find (\<lambda>x. equalElement l x k) xs of
                   None \<Rightarrow> None
                 | Some x \<Rightarrow> copyElement l x)"
  using searchByKeyInList_loop_is_list [OF l, of k] p
  by (simp add: searchByKeyInList_def)

lemma deleteNode_no_match:
  assumes p: "load (lists h) p = Some l" and l: "is_list l xs"
    and f: "List.find (\<lambda>x. equalElement l x e) xs = None"
  shows "deleteNode (Some p) (Some e) h = Some (no_element, h)"
  using deleteNode_loop_is_list_none [OF l f, of "world h"] p
  by (simp add: deleteNode_def heap_update_same)

lemma deleteNode_match:
  assumes p: "load (lists h) p = Some l" and l: "is_list l xs"
    and f: "List.find (\<lambda>x. equalElement l x e) xs = Some x"
    and fr: "freeElement l x (world h) = Some w1"
  shows "\<exists>l'. deleteNode (Some p) (Some e) h =
                 Some (success, h\<lparr>lists := (lists h)[p := Some l'], world := w1\<rparr>) \<and>
              is_list l' (remove_first (\<lambda>x. equalElement l x e) xs) \<and>
              copyElement l' = copyElement l \<and> freeElement l' = freeElement l \<and>
              printElement l' = printElement l \<and> equalElement l' = equalElement l"
proof -
  from deleteNode_loop_is_list_some [OF l f fr] obtain l' where
    l': "deleteNode_loop l (world h) e (head l) = Some (success, l', w1)"
    "is_list l' (remove_first (\<lambda>x. equalElement l x e) xs)"
    "copyElement l' = copyElement l" "freeElement l' = freeElement l"
    "printElement l' = printElement l" "equalElement l' = equalElement l"
    by blast
  from l'(1) p have "deleteNode (Some p) (Some e) h =
      Some (success, h\<lparr>lists := (lists h)[p := Some l'], world := w1\<rparr>)"
    by (simp add: deleteNode_def)
  with l' show ?thesis by blast
qed

lemma remove_first_length:
  "List.find P xs = Some x \<Longrightarrow> length (remove_first P xs) = length xs - 1"
  by (induction xs) (auto split: if_splits dest: find_decompose)



lemma appendNode_s_overflow:
  assumes inv: "list_inv l as" and cp: "copyElement l e = Some c"
    and len: "count_elements l = INT_MAX"
  shows "appendNode_s True l e = None"
proof (cases as rule: rev_cases)
  case Nil
  with inv len show ?thesis by (simp add: list_inv_def INT_MAX_def)
next
  case (snoc bs t)
  with inv have inv1: "list_inv l (bs @ [t])" by simp
  then obtain b where h: "head l = Some b" by (cases bs) (auto simp: list_inv_def)
  from inv1 have t: "tail l = Some t" by (cases bs) (auto simp: list_inv_def)
  from inv1 have seg: "dl_seg (nodes l) None (bs @ [t]) None" by (simp add: list_inv_def)
  then obtain n where tn: "load (nodes l) t = Some n"
    by (auto simp: dl_seg_append split: option.splits)
  have tl: "t < length (nodes l)" using tn by (rule load_Some_length)
  then have ne: "t \<noteq> length (nodes l)" by simp
  show ?thesis
    using tl ne len
    by (simp add: appendNode_s_def h t createNode_ok [OF cp] Let_def set_next_def set_prev_def
        get_node_def load_append_new load_append_old load_update_same load_update_other tn)
qed

lemma appendNode_overflow:
  assumes p: "load (lists h) p = Some l" and l: "is_list l xs"
    and cp: "copyElement l e = Some c" and len: "count_elements l = INT_MAX"
  shows "appendNode True (Some p) (Some e) h = None"
proof -
  from l obtain as where "list_inv l as" by (auto simp: is_list_def)
  from appendNode_s_overflow [OF this cp len] p show ?thesis by (simp add: appendNode_def)
qed

subsection \<open>Claims about the linked list\<close>

text \<open>
  Claim C7. For a list handle \<open>p\<close> that points to a well-formed list holding \<open>xs\<close> and a
  probe \<open>e\<close>: when no element of \<open>xs\<close> satisfies \<open>equal(x, e)\<close>, \<open>deleteNode\<close> returns
  \<open>no_element\<close> and leaves the memory unchanged; otherwise it frees the first such
  element, returns \<open>success\<close>, and the list is again well formed (head, tail and the
  links of the neighbours are consistent, whichever position the node had), holds \<open>xs\<close>
  without that first match, and its element count is one less.
\<close>

theorem C7_deleteNode_first_match:
  assumes "load (lists h) p = Some l" and "is_list l xs"
  shows "(List.find (\<lambda>x. equalElement l x e) xs = None \<longrightarrow>
            deleteNode (Some p) (Some e) h = Some (no_element, h)) \<and>
         (\<forall>x w1. List.find (\<lambda>x. equalElement l x e) xs = Some x \<and>
                 freeElement l x (world h) = Some w1 \<longrightarrow>
            (\<exists>l'. deleteNode (Some p) (Some e) h =
                     Some (success, h\<lparr>lists := (lists h)[p := Some l'], world := w1\<rparr>) \<and>
                  is_list l' (remove_first (\<lambda>x. equalElement l x e) xs) \<and>
                  count_elements l' = count_elements l - 1))"
proof (intro conjI impI allI)
  assume "List.find (\<lambda>x. equalElement l x e) xs = None"
  then show "deleteNode (Some p) (Some e) h = Some (no_element, h)"
    by (rule deleteNode_no_match [OF assms])
next
  fix x w1
  assume a: "List.find (\<lambda>x. equalElement l x e) xs = Some x \<and>
             freeElement l x (world h) = Some w1"
  then have f: "List.find (\<lambda>x. equalElement l x e) xs = Some x"
    and fr: "freeElement l x (world h) = Some w1"
    by simp_all
  from deleteNode_match [OF assms f fr] obtain l' where
    l': "deleteNode (Some p) (Some e) h =
           Some (success, h\<lparr>lists := (lists h)[p := Some l'], world := w1\<rparr>)"
    "is_list l' (remove_first (\<lambda>x. equalElement l x e) xs)"
    by blast
  from f have "xs \<noteq> []" by auto
  then have "int (length xs - 1) = int (length xs) - 1" by (cases xs) simp_all
  with is_list_count [OF l'(2)] is_list_count [OF assms(2)] remove_first_length [OF f]
  have "count_elements l' = count_elements l - 1" by simp
  with l' show "\<exists>l'. deleteNode (Some p) (Some e) h =
                     Some (success, h\<lparr>lists := (lists h)[p := Some l'], world := w1\<rparr>) \<and>
                  is_list l' (remove_first (\<lambda>x. equalElement l x e) xs) \<and>
                  count_elements l' = count_elements l - 1"
    by blast
qed

lemma is_list_nat_list_123: "is_list nat_list_123 [10, 20, 30]"
  unfolding is_list_def
  by (rule exI [of _ "[0, 1, 2]"])
     (simp add: list_inv_def contents_at_def load_def nat_list_123_def)

theorem C7_witness:
  "load (lists \<lparr>lists = [Some nat_list_123], world = ()\<rparr>) 0 = Some nat_list_123 \<and>
   is_list nat_list_123 [10, 20, 30] \<and>
   deleteNode (Some 0) (Some 40) \<lparr>lists = [Some nat_list_123], world = ()\<rparr> =
     Some (no_element, \<lparr>lists = [Some nat_list_123], world = ()\<rparr>) \<and>
   (\<exists>l'. deleteNode (Some 0) (Some 20) \<lparr>lists = [Some nat_list_123], world = ()\<rparr> =
            Some (success, \<lparr>lists = [Some l'], world = ()\<rparr>) \<and>
         is_list l' [10, 30] \<and> count_elements l' = 2)"
proof -
  define h :: "(nat, nat, unit) heap" where "h = \<lparr>lists = [Some nat_list_123], world = ()\<rparr>"
  have p: "load (lists h) 0 = Some nat_list_123" by (simp add: h_def load_def)
  note l = is_list_nat_list_123
  have eq: "equalElement nat_list_123 = (=)" by (simp add: nat_list_123_def)
  have f40: "List.find (\<lambda>x. equalElement nat_list_123 x 40) [10, 20, 30] = None"
    by (simp add: eq)
  have f20: "List.find (\<lambda>x. equalElement nat_list_123 x 20) [10, 20, 30] = Some 20"
    by (simp add: eq)
  have fr: "freeElement nat_list_123 20 (world h) = Some ()" by (simp add: nat_list_123_def)
  from C7_deleteNode_first_match [OF p l, of 40] f40
  have a: "deleteNode (Some 0) (Some 40) h = Some (no_element, h)" by simp
  from C7_deleteNode_first_match [OF p l, of 20] f20 fr
  obtain l' where "deleteNode (Some 0) (Some 20) h =
      Some (success, h\<lparr>lists := (lists h)[0 := Some l'], world := ()\<rparr>)"
    "is_list l' (remove_first (\<lambda>x. equalElement nat_list_123 x 20) [10, 20, 30])"
    "count_elements l' = count_elements nat_list_123 - 1"
    by blast
  then have "deleteNode (Some 0) (Some 20) h = Some (success, \<lparr>lists = [Some l'], world = ()\<rparr>) \<and>
      is_list l' [10, 30] \<and> count_elements l' = 2"
    by (simp add: h_def eq) (simp add: nat_list_123_def)
  with p l a show ?thesis unfolding h_def by blast
qed

lemma appendNodes_is_list:
  assumes "load (lists h) p = Some l" and "is_list l xs"
    and "map (copyElement l) es = map Some cs"
    and "int (length xs + length es) \<le> INT_MAX"
  shows "\<exists>h1 l1. appendNodes p es h = Some h1 \<and> load (lists h1) p = Some l1 \<and>
           is_list l1 (xs @ cs) \<and> world h1 = world h \<and>
           copyElement l1 = copyElement l \<and> freeElement l1 = freeElement l \<and>
           equalElement l1 = equalElement l"
  using assms
proof (induction es arbitrary: h l xs cs)
  case Nil
  then show ?case by simp
next
  case (Cons e es)
  from Cons.prems(3) obtain c cs' where cs: "cs = c # cs'" and c: "copyElement l e = Some c"
    and rest: "map (copyElement l) es = map Some cs'"
    by (cases cs) auto
  from Cons.prems(4) is_list_count [OF Cons.prems(2)] have n: "count_elements l \<noteq> INT_MAX"
    by simp
  from appendNode_success [OF Cons.prems(1,2) c n] obtain l' where
    a: "appendNode True (Some p) (Some e) h = Some (success, h\<lparr>lists := (lists h)[p := Some l']\<rparr>)"
    and l': "is_list l' (xs @ [c])"
    and cb: "copyElement l' = copyElement l" "freeElement l' = freeElement l"
      "equalElement l' = equalElement l"
    by blast
  let ?h = "h\<lparr>lists := (lists h)[p := Some l']\<rparr>"
  from Cons.prems(1) have p': "load (lists ?h) p = Some l'" by (simp add: load_lists_update)
  from rest cb(1) have rest': "map (copyElement l') es = map Some cs'" by simp
  from Cons.prems(4) have len': "int (length (xs @ [c]) + length es) \<le> INT_MAX" by simp
  from Cons.IH [OF p' l' rest' len'] obtain h1 l1 where
    "appendNodes p es ?h = Some h1" "load (lists h1) p = Some l1" "is_list l1 ((xs @ [c]) @ cs')"
    "world h1 = world ?h" "copyElement l1 = copyElement l'" "freeElement l1 = freeElement l'"
    "equalElement l1 = equalElement l'"
    by blast
  with a cb cs show ?case by simp
qed

text \<open>
  Claim C6. \<open>appendNode\<close> always links the new node after the last one, so the order in
  which \<open>getDataByIndex\<close> reads a list is the order of insertion. For every well-formed list,
  holding the elements \<open>xs\<close>: appending the elements \<open>es\<close> one after the other (the
  allocations and the copies \<open>cs\<close> succeeding, the element counter staying an \<open>int\<close>) leaves a
  well-formed list that holds \<open>xs\<close> followed by \<open>cs\<close>, and \<open>getDataByIndex\<close> with the index
  \<open>i\<close> returns a copy of its \<open>i\<close>-th element, for every \<open>i\<close> from 1 to the length. Deleting
  then an element \<open>d\<close> (whose first match is \<open>x\<close>) and appending \<open>e\<close> leaves the other
  elements in their order, followed by the copy of \<open>e\<close>. With the list that holds no
  element and \<open>es = [e1, e2, e3]\<close> this is the run of the claim: the indices 1, 2, 3 return
  copies of \<open>e1\<close>, \<open>e2\<close>, \<open>e3\<close>, and after deleting \<open>e2\<close> and appending \<open>e4\<close> the list holds
  the copies of \<open>e1\<close>, \<open>e3\<close>, \<open>e4\<close> in this order.
\<close>

theorem C6_append_order:
  assumes p: "load (lists h) p = Some l" and l: "is_list l xs"
    and cp: "map (copyElement l) es = map Some cs"
    and len: "int (length xs + length es) \<le> INT_MAX"
  shows "\<exists>h1 l1.
           appendNodes p es h = Some h1 \<and> load (lists h1) p = Some l1 \<and>
           is_list l1 (xs @ cs) \<and>
           (\<forall>i. 1 \<le> i \<and> i \<le> int (length (xs @ cs)) \<longrightarrow>
                getDataByIndex (Some p) i h1 = Some (copyElement l ((xs @ cs) ! nat (i - 1)))) \<and>
           (\<forall>d x w1 e c.
              List.find (\<lambda>y. equalElement l y d) (xs @ cs) = Some x \<and>
              freeElement l x (world h) = Some w1 \<and> copyElement l e = Some c \<longrightarrow>
              (\<exists>h2 h3 l3.
                 deleteNode (Some p) (Some d) h1 = Some (success, h2) \<and>
                 appendNode True (Some p) (Some e) h2 = Some (success, h3) \<and>
                 load (lists h3) p = Some l3 \<and>
                 is_list l3 (remove_first (\<lambda>y. equalElement l y d) (xs @ cs) @ [c]) \<and>
                 (\<forall>i. 1 \<le> i \<and> i \<le> int (length (xs @ cs)) \<longrightarrow>
                      getDataByIndex (Some p) i h3 =
                        Some (copyElement l
                          ((remove_first (\<lambda>y. equalElement l y d) (xs @ cs) @ [c]) ! nat (i - 1))))))"
proof -
  let ?ys = "xs @ cs"
  from appendNodes_is_list [OF p l cp len] obtain h1 l1 where
    run: "appendNodes p es h = Some h1" and p1: "load (lists h1) p = Some l1"
    and l1: "is_list l1 ?ys" and w1: "world h1 = world h"
    and cb: "copyElement l1 = copyElement l" "freeElement l1 = freeElement l"
      "equalElement l1 = equalElement l"
    by blast
  from cp have "length cs = length es" by (metis length_map)
  with len have leny: "int (length ?ys) \<le> INT_MAX" by simp
  have get: "getDataByIndex (Some p) i h1 = Some (copyElement l (?ys ! nat (i - 1)))"
    if "1 \<le> i \<and> i \<le> int (length ?ys)" for i
    using getDataByIndex_in_range [OF p1 l1, of i] that cb(1) by simp
  have del: "\<exists>h2 h3 l3.
       deleteNode (Some p) (Some d) h1 = Some (success, h2) \<and>
       appendNode True (Some p) (Some e) h2 = Some (success, h3) \<and>
       load (lists h3) p = Some l3 \<and>
       is_list l3 (remove_first (\<lambda>y. equalElement l y d) ?ys @ [c]) \<and>
       (\<forall>i. 1 \<le> i \<and> i \<le> int (length ?ys) \<longrightarrow>
            getDataByIndex (Some p) i h3 =
              Some (copyElement l ((remove_first (\<lambda>y. equalElement l y d) ?ys @ [c]) ! nat (i - 1))))"
    if h: "List.find (\<lambda>y. equalElement l y d) ?ys = Some x \<and>
           freeElement l x (world h) = Some w \<and> copyElement l e = Some c"
    for d x w e c
  proof -
    let ?zs = "remove_first (\<lambda>y. equalElement l y d) ?ys"
    from h have f: "List.find (\<lambda>y. equalElement l1 y d) ?ys = Some x"
      and fr: "freeElement l1 x (world h1) = Some w" and c: "copyElement l e = Some c"
      by (simp_all add: cb w1)
    from deleteNode_match [OF p1 l1 f fr] obtain l2 where
      d: "deleteNode (Some p) (Some d) h1 =
            Some (success, h1\<lparr>lists := (lists h1)[p := Some l2], world := w\<rparr>)"
      and l2: "is_list l2 ?zs" and cb2: "copyElement l2 = copyElement l1"
      by (auto simp: cb)
    let ?h2 = "h1\<lparr>lists := (lists h1)[p := Some l2], world := w\<rparr>"
    from p1 have p2: "load (lists ?h2) p = Some l2" by (simp add: load_lists_update)
    from h have "List.find (\<lambda>y. equalElement l y d) ?ys = Some x" by simp
    from remove_first_length [OF this] have lz: "length ?zs = length ?ys - 1" .
    from find_in_set [OF f] have "?ys \<noteq> []" by auto
    then have "0 < length ?ys" by simp
    with lz leny have "int (length ?zs) < INT_MAX" by linarith
    with is_list_count [OF l2] have n2: "count_elements l2 \<noteq> INT_MAX" by simp
    from c cb2 cb(1) have c2: "copyElement l2 e = Some c" by simp
    from appendNode_success [OF p2 l2 c2 n2] obtain l3 where
      a: "appendNode True (Some p) (Some e) ?h2 =
            Some (success, ?h2\<lparr>lists := (lists ?h2)[p := Some l3]\<rparr>)"
      and l3: "is_list l3 (?zs @ [c])" and cb3: "copyElement l3 = copyElement l2"
      by blast
    let ?h3 = "?h2\<lparr>lists := (lists ?h2)[p := Some l3]\<rparr>"
    from load_lists_update [OF p2, of l3] have p3: "load (lists ?h3) p = Some l3" by simp
    from lz \<open>0 < length ?ys\<close> have l3n: "length (?zs @ [c]) = length ?ys" by simp
    have "getDataByIndex (Some p) i ?h3 = Some (copyElement l ((?zs @ [c]) ! nat (i - 1)))"
      if "1 \<le> i \<and> i \<le> int (length ?ys)" for i
      using getDataByIndex_in_range [OF p3 l3, of i] that l3n cb3 cb2 cb(1) by simp
    with d a p3 l3 show ?thesis by blast
  qed
  from run p1 l1 get del show ?thesis by blast
qed

theorem C6_witness:
  "load (lists \<lparr>lists = [Some nat_list_empty], world = ()\<rparr>) 0 = Some nat_list_empty \<and>
   is_list nat_list_empty [] \<and>
   (\<exists>h1 h2 h3 l1 l3.
      appendNodes 0 [1, 2, 3] \<lparr>lists = [Some nat_list_empty], world = ()\<rparr> = Some h1 \<and>
      load (lists h1) 0 = Some l1 \<and> is_list l1 [1, 2, 3] \<and>
      getDataByIndex (Some 0) 1 h1 = Some (Some 1) \<and>
      getDataByIndex (Some 0) 2 h1 = Some (Some 2) \<and>
      getDataByIndex (Some 0) 3 h1 = Some (Some 3) \<and>
      deleteNode (Some 0) (Some 2) h1 = Some (success, h2) \<and>
      appendNode True (Some 0) (Some 4) h2 = Some (success, h3) \<and>
      load (lists h3) 0 = Some l3 \<and> is_list l3 [1, 3, 4] \<and>
      getDataByIndex (Some 0) 1 h3 = Some (Some 1) \<and>
      getDataByIndex (Some 0) 2 h3 = Some (Some 3) \<and>
      getDataByIndex (Some 0) 3 h3 = Some (Some 4))"
proof -
  define h :: "(nat, nat, unit) heap" where "h = \<lparr>lists = [Some nat_list_empty], world = ()\<rparr>"
  have p: "load (lists h) 0 = Some nat_list_empty" by (simp add: h_def load_def)
  have l: "is_list nat_list_empty []" by (simp add: is_list_Nil_iff nat_list_empty_def)
  have cp: "copyElement nat_list_empty = Some" by (simp add: nat_list_empty_def)
  have eq: "equalElement nat_list_empty = (=)" by (simp add: nat_list_empty_def)
  have fr: "freeElement nat_list_empty 2 (world h) = Some ()" by (simp add: nat_list_empty_def)
  have cs: "map (copyElement nat_list_empty) [1, 2, 3] = map Some [1, 2, 3]" by (simp add: cp)
  have len: "int (length ([] :: nat list) + length [1, 2, 3 :: nat]) \<le> INT_MAX"
    by (simp add: INT_MAX_def)
  from C6_append_order [OF p l cs len] obtain h1 l1 where
    run: "appendNodes 0 [1, 2, 3] h = Some h1" and p1: "load (lists h1) 0 = Some l1"
    and l1: "is_list l1 [1, 2, 3]"
    and get: "\<forall>i. 1 \<le> i \<and> i \<le> int (length ([] @ [1, 2, 3 :: nat])) \<longrightarrow>
               getDataByIndex (Some 0) i h1 =
                 Some (copyElement nat_list_empty (([] @ [1, 2, 3]) ! nat (i - 1)))"
    and del: "\<forall>d x w1 e c.
              List.find (\<lambda>y. equalElement nat_list_empty y d) ([] @ [1, 2, 3]) = Some x \<and>
              freeElement nat_list_empty x (world h) = Some w1 \<and>
              copyElement nat_list_empty e = Some c \<longrightarrow>
              (\<exists>h2 h3 l3.
                 deleteNode (Some 0) (Some d) h1 = Some (success, h2) \<and>
                 appendNode True (Some 0) (Some e) h2 = Some (success, h3) \<and>
                 load (lists h3) 0 = Some l3 \<and>
                 is_list l3 (remove_first (\<lambda>y. equalElement nat_list_empty y d) ([] @ [1, 2, 3]) @ [c]) \<and>
                 (\<forall>i. 1 \<le> i \<and> i \<le> int (length ([] @ [1, 2, 3 :: nat])) \<longrightarrow>
                      getDataByIndex (Some 0) i h3 =
                        Some (copyElement nat_list_empty
                          ((remove_first (\<lambda>y. equalElement nat_list_empty y d) ([] @ [1, 2, 3]) @ [c]) !
                             nat (i - 1)))))"
    by auto
  from get [rule_format, of 1] get [rule_format, of 2] get [rule_format, of 3]
  have g: "getDataByIndex (Some 0) 1 h1 = Some (Some 1)"
    "getDataByIndex (Some 0) 2 h1 = Some (Some 2)"
    "getDataByIndex (Some 0) 3 h1 = Some (Some 3)"
    by (simp_all add: cp)
  have pre: "List.find (\<lambda>y. equalElement nat_list_empty y 2) ([] @ [1, 2, 3]) = Some 2 \<and>
      freeElement nat_list_empty 2 (world h) = Some () \<and> copyElement nat_list_empty 4 = Some 4"
    by (simp add: nat_list_empty_def)
  from del [rule_format, OF pre] obtain h2 h3 l3 where
    d: "deleteNode (Some 0) (Some 2) h1 = Some (success, h2)"
    and a: "appendNode True (Some 0) (Some 4) h2 = Some (success, h3)"
    and p3: "load (lists h3) 0 = Some l3" and l3: "is_list l3 [1, 3, 4]"
    and get3: "\<forall>i. 1 \<le> i \<and> i \<le> 3 \<longrightarrow>
                getDataByIndex (Some 0) i h3 = Some (Some ([1, 3, 4] ! nat (i - 1)))"
    by (auto simp: eq cp)
  from get3 [rule_format, of 1] get3 [rule_format, of 2] get3 [rule_format, of 3]
  have g3: "getDataByIndex (Some 0) 1 h3 = Some (Some 1)"
    "getDataByIndex (Some 0) 2 h3 = Some (Some 3)"
    "getDataByIndex (Some 0) 3 h3 = Some (Some 4)"
    by simp_all
  from p l run p1 l1 g d a p3 l3 g3 show ?thesis unfolding h_def by blast
qed

section \<open>The hash table\<close>

subsection \<open>The bucket of a key\<close>

lemma c_rem_in_range:
  assumes "0 < n" and "0 \<le> a"
  shows "\<exists>i. c_rem a n = Some i \<and> 0 \<le> i \<and> i < n"
proof -
  from assms have "c_rem a n = Some (sgn a * (a mod n))"
    by (simp add: c_rem_def INT_MIN_def)
  moreover have "0 \<le> sgn a * (a mod n)" "sgn a * (a mod n) < n"
    using assms by (cases "a = 0"; simp add: sgn_if)+
  ultimately show ?thesis by simp
qed

lemma table_cell_Some:
  "table_cell t i = Some b \<longleftrightarrow> 0 \<le> i \<and> nat i < length (table t) \<and> b = table t ! nat i"
  by (auto simp: table_cell_def)

lemma bucket_of_Some:
  "bucket_of t k = Some b \<Longrightarrow> \<exists>j<length (table t). b = table t ! j"
  by (auto simp: bucket_of_def table_cell_Some split: option.splits)

lemma bucket_of_in_range:
  assumes "length (table t) = nat (tableSize t)" and "0 < tableSize t"
    and "0 \<le> transIntoNumber t k"
  shows "\<exists>b. bucket_of t k = Some b"
proof -
  from c_rem_in_range [OF assms(2,3)] obtain i where
    i: "c_rem (transIntoNumber t k) (tableSize t) = Some i" "0 \<le> i" "i < tableSize t"
    by blast
  with assms(1) have "nat i < length (table t)" by simp
  with i show ?thesis by (simp add: bucket_of_def table_cell_def)
qed

lemma table_contents_bucket:
  assumes "table_contents t h pss" and "bucket_of t k = Some b"
  shows "\<exists>j l. j < length (table t) \<and> b = table t ! j \<and> load (lists h) b = Some l \<and>
               bucket_list t l (pss ! j)"
proof -
  from bucket_of_Some [OF assms(2)] obtain j where j: "j < length (table t)" "b = table t ! j"
    by blast
  with assms(1) obtain l where "load (lists h) (table t ! j) = Some l" "bucket_list t l (pss ! j)"
    unfolding table_contents_def by blast
  with j show ?thesis by blast
qed

subsection \<open>Searching a bucket\<close>

lemma equalForInnerList_Some:
  "equalForInnerList (Some p) (Some k) = kv_equalKey p (kv_key p) k"
  by (simp add: equalForInnerList_def isEqualKey_def)

lemma find_bucket:
  assumes "bucket_list t l ps"
  shows "List.find (\<lambda>x. equalElement l x k) ps = List.find (\<lambda>p. equalKey t (kv_key p) k) ps"
proof -
  from assms have "\<forall>p\<in>set ps. equalElement l p k = equalKey t (kv_key p) k"
    by (simp add: bucket_list_def equalForInnerList_Some)
  then show ?thesis by (induction ps) simp_all
qed

lemma remove_first_bucket:
  assumes "bucket_list t l ps"
  shows "remove_first (\<lambda>x. equalElement l x k) ps = remove_first (\<lambda>p. equalKey t (kv_key p) k) ps"
proof -
  from assms have "\<forall>p\<in>set ps. equalElement l p k = equalKey t (kv_key p) k"
    by (simp add: bucket_list_def equalForInnerList_Some)
  then show ?thesis by (induction ps) simp_all
qed

lemma searchByKeyInList_bucket:
  assumes p: "load (lists h) b = Some l" and bl: "bucket_list t l ps"
  shows "searchByKeyInList (Some b) (Some k) h =
           Some (List.find (\<lambda>p. equalKey t (kv_key p) k) ps)"
proof -
  from bl have l: "is_list l ps" and cp: "copyElement l = (\<lambda>e. copyKeyValuePairs (Some e))"
    by (simp_all add: bucket_list_def)
  have "searchByKeyInList (Some b) (Some k) h =
          Some (case List.find (\<lambda>x. equalElement l x k) ps of
                  None \<Rightarrow> None | Some x \<Rightarrow> copyElement l x)"
    by (rule searchByKeyInList_found [OF p l])
  also have "\<dots> = Some (List.find (\<lambda>x. equalElement l x k) ps)"
    by (simp add: cp copyKeyValuePairs_def split: option.splits)
  finally show ?thesis by (simp add: find_bucket [OF bl])
qed

lemma lookupInHashTable_bucket:
  assumes tc: "table_contents t h pss" and b: "bucket_of t k = Some (table t ! j)"
    and j: "j < length (table t)"
  shows "lookupInHashTable (Some t) (Some k) h =
           Some (case List.find (\<lambda>p. equalKey t (kv_key p) k) (pss ! j) of
                   None \<Rightarrow> None
                 | Some p \<Rightarrow> copyValue t (kv_value p))"
proof -
  from tc j obtain l where l: "load (lists h) (table t ! j) = Some l" "bucket_list t l (pss ! j)"
    unfolding table_contents_def by blast
  note s = searchByKeyInList_bucket [OF l, of k]
  show ?thesis
  proof (cases "List.find (\<lambda>p. equalKey t (kv_key p) k) (pss ! j)")
    case None
    with s b show ?thesis by (simp add: lookupInHashTable_def)
  next
    case (Some p)
    from find_in_set [OF Some] l(2) have "kv_copyValue p = copyValue t"
      by (simp add: bucket_list_def)
    with s b Some show ?thesis by (simp add: lookupInHashTable_def getValue_def)
  qed
qed

subsection \<open>Adding and removing a pair\<close>

lemma createKeyValuePair_table:
  "createKeyValuePair m (Some k) (Some v) (Some (copyKey t)) (Some (freeKey t))
     (Some (printKey t)) (Some (copyValue t)) (Some (freeValue t)) (Some (printValue t))
     (Some (equalKey t)) w =
   (if \<not> m then Some (None, w)
    else case copyKey t k of
           None \<Rightarrow> Some (None, w)
         | Some k' \<Rightarrow>
             (case copyValue t v of
                None \<Rightarrow> (case freeKey t k' w of None \<Rightarrow> None | Some w' \<Rightarrow> Some (None, w'))
              | Some v' \<Rightarrow> Some (Some (pair_of t k' v'), w)))"
  by (simp add: createKeyValuePair_def pair_of_def split: option.splits)

lemma table_contents_update:
  assumes tc: "table_contents t h pss" and j: "j < length (table t)"
    and bl: "bucket_list t l' ps'"
  shows "table_contents t (h\<lparr>lists := (lists h)[table t ! j := Some l'], world := w\<rparr>)
           (pss[j := ps'])"
proof -
  from tc have d: "distinct (table t)" and len: "length pss = length (table t)"
    and sz: "length (table t) = nat (tableSize t)"
    and all: "\<forall>i<length (table t). \<exists>l. load (lists h) (table t ! i) = Some l \<and>
                bucket_list t l (pss ! i)"
    by (simp_all add: table_contents_def)
  have "\<exists>l. load ((lists h)[table t ! j := Some l']) (table t ! i) = Some l \<and>
            bucket_list t l (pss[j := ps'] ! i)" if i: "i < length (table t)" for i
  proof (cases "i = j")
    case True
    from all j obtain l where "load (lists h) (table t ! j) = Some l" by blast
    then have "load ((lists h)[table t ! j := Some l']) (table t ! j) = Some l'"
      by (rule load_lists_update)
    with True bl j len show ?thesis by simp
  next
    case False
    with d i j have "table t ! j \<noteq> table t ! i" by (simp add: nth_eq_iff_index_eq)
    then have "load ((lists h)[table t ! j := Some l']) (table t ! i) = load (lists h) (table t ! i)"
      by (rule load_update_other)
    with all i False show ?thesis by simp
  qed
  with d len sz show ?thesis by (simp add: table_contents_def)
qed


lemma bucket_list_append:
  assumes bl: "bucket_list t l ps" and l': "is_list l' (ps @ [pair_of t k' v'])"
    and cb: "copyElement l' = copyElement l" "freeElement l' = freeElement l"
      "equalElement l' = equalElement l"
  shows "bucket_list t l' (ps @ [pair_of t k' v'])"
  using assms by (simp add: bucket_list_def pair_of_def)

lemma bucket_list_remove:
  assumes bl: "bucket_list t l ps" and l': "is_list l' (remove_first P ps)"
    and cb: "copyElement l' = copyElement l" "freeElement l' = freeElement l"
      "equalElement l' = equalElement l"
  shows "bucket_list t l' (remove_first P ps)"
proof -
  have "set (remove_first P ps) \<subseteq> set ps" by (induction ps) auto
  with assms show ?thesis by (auto simp: bucket_list_def)
qed

lemma addToHashTable_char:
  assumes tc: "table_contents t h pss" and b: "bucket_of t k = Some (table t ! j)"
    and j: "j < length (table t)"
  shows "addToHashTable mp mn (Some t) (Some k) (Some v) h =
     (case List.find (\<lambda>p. equalKey t (kv_key p) k) (pss ! j) of
        Some p \<Rightarrow> Some (element_exist, h)
      | None \<Rightarrow>
          if \<not> mp then Some (Memory_Problem, h)
          else
            (case copyKey t k of
               None \<Rightarrow> Some (Memory_Problem, h)
             | Some k' \<Rightarrow>
                 (case copyValue t v of
                    None \<Rightarrow>
                      (case freeKey t k' (world h) of
                         None \<Rightarrow> None
                       | Some w' \<Rightarrow> Some (Memory_Problem, h\<lparr>world := w'\<rparr>))
                  | Some v' \<Rightarrow>
                      (case appendNode mn (Some (table t ! j)) (Some (pair_of t k' v')) h of
                         None \<Rightarrow> None
                       | Some (r, h') \<Rightarrow>
                           Some (if r = success then success
                                 else if r = Memory_Problem then Memory_Problem
                                 else Invalid_input, h')))))"
proof -
  from tc j obtain l where l: "load (lists h) (table t ! j) = Some l" "bucket_list t l (pss ! j)"
    unfolding table_contents_def by blast
  note s = searchByKeyInList_bucket [OF l, of k]
  have hw: "h\<lparr>world := world h\<rparr> = h" by simp
  show ?thesis
    by (simp add: addToHashTable_def b s createKeyValuePair_table hw
        split: option.splits)
qed

lemma appendNode_bucket_no_memory:
  assumes tc: "table_contents t h pss" and j: "j < length (table t)"
  shows "appendNode False (Some (table t ! j)) (Some p) h = Some (Memory_Problem, h)"
proof -
  from tc j obtain l where l: "load (lists h) (table t ! j) = Some l" "bucket_list t l (pss ! j)"
    unfolding table_contents_def by blast
  then have il: "is_list l (pss ! j)" by (simp add: bucket_list_def)
  from appendNode_fail [OF l(1) il, of False p] show ?thesis by simp
qed

lemma appendNode_bucket_overflow:
  assumes tc: "table_contents t h pss" and j: "j < length (table t)"
    and ov: "int (length (pss ! j)) = INT_MAX"
  shows "appendNode True (Some (table t ! j)) (Some p) h = None"
proof -
  from tc j obtain l where l: "load (lists h) (table t ! j) = Some l" "bucket_list t l (pss ! j)"
    unfolding table_contents_def by blast
  then have il: "is_list l (pss ! j)" and cp: "copyElement l p = Some p"
    by (simp_all add: bucket_list_def copyKeyValuePairs_def)
  from is_list_count [OF il] ov have "count_elements l = INT_MAX" by simp
  from appendNode_overflow [OF l(1) il cp this] show ?thesis .
qed

lemma appendNode_bucket_success:
  assumes tc: "table_contents t h pss" and j: "j < length (table t)"
    and ov: "int (length (pss ! j)) \<noteq> INT_MAX"
  shows "\<exists>h'. appendNode True (Some (table t ! j)) (Some (pair_of t k' v')) h = Some (success, h') \<and>
             table_contents t h' (pss[j := pss ! j @ [pair_of t k' v']]) \<and> world h' = world h"
proof -
  from tc j obtain l where l: "load (lists h) (table t ! j) = Some l" "bucket_list t l (pss ! j)"
    unfolding table_contents_def by blast
  then have il: "is_list l (pss ! j)"
    and cp: "copyElement l (pair_of t k' v') = Some (pair_of t k' v')"
    by (simp_all add: bucket_list_def copyKeyValuePairs_def)
  from is_list_count [OF il] ov have n: "count_elements l \<noteq> INT_MAX" by simp
  from appendNode_success [OF l(1) il cp n] obtain l' where
    a: "appendNode True (Some (table t ! j)) (Some (pair_of t k' v')) h =
          Some (success, h\<lparr>lists := (lists h)[table t ! j := Some l']\<rparr>)"
    and l': "is_list l' (pss ! j @ [pair_of t k' v'])"
    and cb: "copyElement l' = copyElement l" "freeElement l' = freeElement l"
      "equalElement l' = equalElement l"
    by blast
  have bl': "bucket_list t l' (pss ! j @ [pair_of t k' v'])"
    by (rule bucket_list_append [OF l(2) l' cb])
  from table_contents_update [OF tc j bl', of "world h"]
  have "table_contents t (h\<lparr>lists := (lists h)[table t ! j := Some l']\<rparr>)
          (pss[j := pss ! j @ [pair_of t k' v']])"
    by simp
  with a show ?thesis by simp
qed

text \<open>The outcomes of \<open>addToHashTable\<close> on a well-formed table, by the status it returns.\<close>

lemma addToHashTable_cases:
  assumes tc: "table_contents t h pss" and b: "bucket_of t k = Some (table t ! j)"
    and j: "j < length (table t)"
    and add: "addToHashTable mp mn (Some t) (Some k) (Some v) h = Some (st, h1)"
  shows "(st = element_exist \<and> h1 = h \<and>
            List.find (\<lambda>p. equalKey t (kv_key p) k) (pss ! j) \<noteq> None) \<or>
         (st = Memory_Problem \<and> lists h1 = lists h \<and>
            List.find (\<lambda>p. equalKey t (kv_key p) k) (pss ! j) = None) \<or>
         (st = success \<and> world h1 = world h \<and>
            List.find (\<lambda>p. equalKey t (kv_key p) k) (pss ! j) = None \<and>
            (\<exists>k' v'. copyKey t k = Some k' \<and> copyValue t v = Some v' \<and>
               table_contents t h1 (pss[j := pss ! j @ [pair_of t k' v']])))"
proof (cases "List.find (\<lambda>p. equalKey t (kv_key p) k) (pss ! j)")
  case (Some p)
  with add show ?thesis by (simp add: addToHashTable_char [OF tc b j])
next
  case None
  note c = add [unfolded addToHashTable_char [OF tc b j], unfolded None, simplified]
  show ?thesis
  proof (cases "mp \<and> copyKey t k \<noteq> None \<and> copyValue t v \<noteq> None")
    case False
    with c None show ?thesis by (auto split: if_splits option.splits)
  next
    case True
    then obtain k' v' where kv: "mp" "copyKey t k = Some k'" "copyValue t v = Some v'" by auto
    show ?thesis
    proof (cases mn)
      case False
      with c kv appendNode_bucket_no_memory [OF tc j, of "pair_of t k' v'"] None
      show ?thesis by auto
    next
      case mn: True
      have "int (length (pss ! j)) \<noteq> INT_MAX"
      proof
        assume "int (length (pss ! j)) = INT_MAX"
        from appendNode_bucket_overflow [OF tc j this, of "pair_of t k' v'"] c kv mn
        show False by simp
      qed
      from appendNode_bucket_success [OF tc j this, of k' v'] c kv mn None
      show ?thesis by auto
    qed
  qed
qed

lemma freeElement_bucket:
  assumes "bucket_list t l ps" and "p \<in> set ps"
  shows "freeElement l p w =
           (case freeKey t (kv_key p) w of
              None \<Rightarrow> None
            | Some w1 \<Rightarrow> freeValue t (kv_value p) w1)"
  using assms
  by (simp add: bucket_list_def as_callback_def destroyKeyValuePairhash_def
      destroyKeyValuePair_def split: option.splits)

text \<open>The outcomes of \<open>removeFromHashTable\<close> on a well-formed table.\<close>

lemma removeFromHashTable_absent:
  assumes tc: "table_contents t h pss" and b: "bucket_of t k = Some (table t ! j)"
    and j: "j < length (table t)"
    and f: "List.find (\<lambda>p. equalKey t (kv_key p) k) (pss ! j) = None"
  shows "removeFromHashTable (Some t) (Some k) h = Some (no_element, h)"
proof -
  from tc j obtain l where l: "load (lists h) (table t ! j) = Some l" "bucket_list t l (pss ! j)"
    unfolding table_contents_def by blast
  then have il: "is_list l (pss ! j)" by (simp add: bucket_list_def)
  from f have "List.find (\<lambda>x. equalElement l x k) (pss ! j) = None"
    by (simp add: find_bucket [OF l(2)])
  from deleteNode_no_match [OF l(1) il this] b show ?thesis
    by (simp add: removeFromHashTable_def)
qed

lemma removeFromHashTable_present:
  assumes tc: "table_contents t h pss" and b: "bucket_of t k = Some (table t ! j)"
    and j: "j < length (table t)"
    and f: "List.find (\<lambda>p. equalKey t (kv_key p) k) (pss ! j) = Some p"
    and fk: "freeKey t (kv_key p) (world h) = Some w1"
    and fv: "freeValue t (kv_value p) w1 = Some w2"
  shows "\<exists>h'. removeFromHashTable (Some t) (Some k) h = Some (success, h') \<and>
              table_contents t h'
                (pss[j := remove_first (\<lambda>p. equalKey t (kv_key p) k) (pss ! j)]) \<and>
              world h' = w2"
proof -
  from tc j obtain l where l: "load (lists h) (table t ! j) = Some l" "bucket_list t l (pss ! j)"
    unfolding table_contents_def by blast
  then have il: "is_list l (pss ! j)" by (simp add: bucket_list_def)
  from f have f': "List.find (\<lambda>x. equalElement l x k) (pss ! j) = Some p"
    by (simp add: find_bucket [OF l(2)])
  from find_in_set [OF f] have pin: "p \<in> set (pss ! j)" by simp
  have fr: "freeElement l p (world h) = Some w2"
    using fk fv by (simp add: freeElement_bucket [OF l(2) pin])
  from deleteNode_match [OF l(1) il f' fr] obtain l' where
    d: "deleteNode (Some (table t ! j)) (Some k) h =
          Some (success, h\<lparr>lists := (lists h)[table t ! j := Some l'], world := w2\<rparr>)"
    and l': "is_list l' (remove_first (\<lambda>x. equalElement l x k) (pss ! j))"
    and cb: "copyElement l' = copyElement l" "freeElement l' = freeElement l"
      "equalElement l' = equalElement l"
    by blast
  have bl': "bucket_list t l' (remove_first (\<lambda>x. equalElement l x k) (pss ! j))"
    by (rule bucket_list_remove [OF l(2) l' cb])
  from table_contents_update [OF tc j bl', of w2] d b show ?thesis
    by (simp add: removeFromHashTable_def remove_first_bucket [OF l(2)])
qed


lemma addToHashTable_returns:
  assumes tc: "table_contents t h pss" and b: "bucket_of t k = Some (table t ! j)"
    and j: "j < length (table t)"
    and ov: "int (length (pss ! j)) \<noteq> INT_MAX"
    and fk: "\<forall>k'. freeKey t k' (world h) \<noteq> None"
  shows "\<exists>st h1. addToHashTable mp mn (Some t) (Some k) (Some v) h = Some (st, h1)"
proof -
  note c = addToHashTable_char [OF tc b j, of mp mn v]
  show ?thesis
  proof (cases "List.find (\<lambda>p. equalKey t (kv_key p) k) (pss ! j)")
    case (Some p)
    with c show ?thesis by simp
  next
    case None
    show ?thesis
    proof (cases "mp \<and> copyKey t k \<noteq> None")
      case False
      with c None show ?thesis by (auto split: option.splits)
    next
      case True
      then obtain k' where k': "mp" "copyKey t k = Some k'" by auto
      show ?thesis
      proof (cases "copyValue t v")
        case cvn: None
        from fk obtain w' where "freeKey t k' (world h) = Some w'" by fastforce
        with c None k' cvn show ?thesis by simp
      next
        case (Some v')
        show ?thesis
        proof (cases mn)
          case False
          with c k' Some appendNode_bucket_no_memory [OF tc j, of "pair_of t k' v'"] None
          show ?thesis by simp
        next
          case True
          with appendNode_bucket_success [OF tc j ov, of k' v'] c k' Some None
          show ?thesis by auto
        qed
      qed
    qed
  qed
qed

lemma table_contents_lists:
  "lists h1 = lists h \<Longrightarrow> table_contents t h1 pss = table_contents t h pss"
  by (simp add: table_contents_def)

lemma find_remove_first_unique:
  "length (filter P xs) \<le> 1 \<Longrightarrow> List.find P (remove_first P xs) = None"
proof (induction xs)
  case Nil
  show ?case by simp
next
  case (Cons a xs)
  show ?case
  proof (cases "P a")
    case True
    with Cons.prems have "filter P xs = []" by simp
    then have "List.find P xs = None" by (simp add: find_None_iff filter_empty_conv)
    with True show ?thesis by simp
  next
    case False
    with Cons show ?thesis by simp
  qed
qed

lemma find_append_new:
  "List.find P xs = None \<Longrightarrow> List.find P (xs @ [y]) = (if P y then Some y else None)"
  by (induction xs) (auto split: if_splits)

lemma remove_first_append_new:
  "List.find P xs = None \<Longrightarrow> P y \<Longrightarrow> remove_first P (xs @ [y]) = xs"
  by (induction xs) (auto split: if_splits)

subsection \<open>Creating a table\<close>

lemma createLinkedList_bucket:
  "createLinkedList True (Some (\<lambda>e. copyKeyValuePairs (Some e)))
     (Some (as_callback destroyKeyValuePairhash)) (Some (as_callback PrintKeyValPair))
     (Some (\<lambda>kvp key. equalForInnerList (Some kvp) (Some key))) h =
   (Some (length (lists h)), h\<lparr>lists := lists h @ [Some empty_bucket]\<rparr>)"
  by (simp add: createLinkedList_def empty_bucket_def)

lemma createLinkedList_no_memory:
  "createLinkedList False cf ff pf ef h = (None, h)"
  by (simp add: createLinkedList_def split: option.splits)

lemma createHashTable_loop_success:
  "\<forall>i. i0 \<le> i \<and> i < i0 + r \<longrightarrow> m_list i \<Longrightarrow>
   createHashTable_loop m_list r i0 tbl h =
     (Some (tbl @ [length (lists h)..<length (lists h) + r]),
      h\<lparr>lists := lists h @ replicate r (Some empty_bucket)\<rparr>)"
proof (induction r arbitrary: i0 tbl h)
  case 0
  show ?case by simp
next
  case (Suc r)
  from Suc.prems have m: "m_list i0" and rest: "\<forall>i. Suc i0 \<le> i \<and> i < Suc i0 + r \<longrightarrow> m_list i"
    by simp_all
  have e: "length (lists h) # [Suc (length (lists h))..<Suc (length (lists h) + r)] =
           [length (lists h)..<Suc (length (lists h) + r)]"
    by (simp add: upt_conv_Cons)
  show ?case
    using m Suc.IH [OF rest, of "tbl @ [length (lists h)]"
        "h\<lparr>lists := lists h @ [Some empty_bucket]\<rparr>"]
    by (simp add: createLinkedList_bucket e replicate_app_Cons_same del: upt_Suc)
qed

lemma createHashTable_loop_failure:
  "i0 \<le> f \<Longrightarrow> f < i0 + r \<Longrightarrow> \<not> m_list f \<Longrightarrow> \<forall>i. i0 \<le> i \<and> i < f \<longrightarrow> m_list i \<Longrightarrow>
   createHashTable_loop m_list r i0 tbl h =
     (None, h\<lparr>lists := lists h @ replicate (f - i0) (Some empty_bucket)\<rparr>)"
proof (induction r arbitrary: i0 tbl h)
  case 0
  then show ?case by simp
next
  case (Suc r)
  show ?case
  proof (cases "i0 = f")
    case True
    with Suc.prems show ?thesis by (simp add: createLinkedList_no_memory)
  next
    case False
    with Suc.prems have m: "m_list i0" and lt: "Suc i0 \<le> f" "f < Suc i0 + r"
      and rest: "\<forall>i. Suc i0 \<le> i \<and> i < f \<longrightarrow> m_list i"
      by simp_all
    from lt have e: "f - i0 = Suc (f - Suc i0)" by simp
    show ?thesis
      using m Suc.IH [OF lt Suc.prems(3) rest, of "tbl @ [length (lists h)]"
          "h\<lparr>lists := lists h @ [Some empty_bucket]\<rparr>"]
      by (simp add: createLinkedList_bucket e replicate_app_Cons_same)
  qed
qed

lemma array_malloc_nonneg: "0 \<le> n \<Longrightarrow> n \<le> INT_MAX \<Longrightarrow> array_malloc m n = m"
  by (simp add: array_malloc_def array_bytes_def PTRDIFF_MAX_def INT_MAX_def)

lemma array_malloc_negative: "INT_MIN \<le> n \<Longrightarrow> n < 0 \<Longrightarrow> \<not> array_malloc m n"
proof -
  assume n: "INT_MIN \<le> n" "n < 0"
  have 1: "n mod 2 ^ 64 = n + 2 ^ 64"
    using n by (intro int_mod_pos_eq [where q = "- 1"]) (simp_all add: INT_MIN_def)
  have 2: "((n + 2 ^ 64) * 8) mod 2 ^ 64 = 8 * n + 2 ^ 64"
    using n by (intro int_mod_pos_eq [where q = 7]) (simp_all add: INT_MIN_def)
  have "array_bytes n = 8 * n + 2 ^ 64" unfolding array_bytes_def 1 2 ..
  with n show ?thesis by (simp add: array_malloc_def PTRDIFF_MAX_def INT_MIN_def)
qed

lemma createHashTable_success:
  assumes "m_struct" and "array_malloc m_array n" and "\<forall>i<nat n. m_list i"
  shows "createHashTable m_struct m_array m_list (Some ck) (Some fk) (Some pk) (Some cv)
           (Some fv) (Some pv) (Some ek) (Some tr) n h =
         (Some \<lparr>table = [length (lists h)..<length (lists h) + nat n], tableSize = n,
                numberOfElements = 0, transIntoNumber = tr, copyKey = ck, freeKey = fk,
                printKey = pk, copyValue = cv, freeValue = fv, printValue = pv,
                equalKey = ek\<rparr>,
          h\<lparr>lists := lists h @ replicate (nat n) (Some empty_bucket)\<rparr>)"
proof -
  from assms(3) have "\<forall>i. 0 \<le> i \<and> i < 0 + nat n \<longrightarrow> m_list i" by simp
  from createHashTable_loop_success [OF this, of "[]" h] assms(1,2) show ?thesis
    by (simp add: createHashTable_def)
qed

lemma bucket_list_empty: "bucket_list t empty_bucket []"
  by (simp add: bucket_list_def is_list_Nil_iff empty_bucket_def)

lemma table_contents_fresh:
  assumes tb: "table t = [length ls..<length ls + n]" and sz: "n = nat (tableSize t)"
  shows "table_contents t \<lparr>lists = ls @ replicate n (Some empty_bucket), world = w\<rparr>
           (replicate n [])"
proof -
  have "load (ls @ replicate n (Some empty_bucket)) (length ls + i) = Some empty_bucket"
    if "i < n" for i
    using that by (simp add: load_def nth_append)
  then show ?thesis
    using tb sz by (simp add: table_contents_def bucket_list_empty)
qed

lemma addToHashTable_success:
  assumes tc: "table_contents t h pss" and b: "bucket_of t k = Some (table t ! j)"
    and j: "j < length (table t)"
    and nf: "List.find (\<lambda>p. equalKey t (kv_key p) k) (pss ! j) = None"
    and ck: "copyKey t k = Some k'" and cv: "copyValue t v = Some v'"
    and ov: "int (length (pss ! j)) \<noteq> INT_MAX"
  shows "\<exists>h1. addToHashTable True True (Some t) (Some k) (Some v) h = Some (success, h1) \<and>
              table_contents t h1 (pss[j := pss ! j @ [pair_of t k' v']]) \<and> world h1 = world h"
  using appendNode_bucket_success [OF tc j ov, of k' v'] nf ck cv
  by (auto simp: addToHashTable_char [OF tc b j])

lemma table_contents_nat_table:
  "table_contents nat_table nat_table_heap (replicate 13 [])"
proof -
  have "table_contents nat_table \<lparr>lists = [] @ replicate 13 (Some empty_bucket), world = ()\<rparr>
          (replicate 13 [])"
    by (rule table_contents_fresh) (simp_all add: nat_table_def)
  then show ?thesis by (simp add: nat_table_heap_def)
qed

lemma bucket_of_nat_table: "k < 13 \<Longrightarrow> bucket_of nat_table k = Some (table nat_table ! k)"
  by (simp add: bucket_of_def c_rem_def table_cell_def nat_table_def INT_MIN_def sgn_if)

subsection \<open>Claims about the hash table\<close>

text \<open>
  Claim C2. For a well-formed table \<open>t\<close> (holding the pairs \<open>pss\<close>): when
  \<open>addToHashTable(t, k, v)\<close> returns \<open>success\<close> (so no stored key of the bucket was equal
  to \<open>k\<close>), \<open>lookupInHashTable(t, k)\<close> returns the copy, made by the value copy function,
  of the stored value, which is equal to \<open>v\<close>; and every later \<open>addToHashTable(t, k, v2)\<close>
  returns \<open>element_exist\<close> and leaves the memory, hence the stored pair, unchanged. The
  callbacks are taken to behave as copies and as an equality: a copy of a value is
  equal to it, and the stored copy of \<open>k\<close> is equal to \<open>k\<close> for \<open>equalKey\<close>.
\<close>

theorem C2_add_then_lookup:
  assumes tc: "table_contents t h pss"
    and add: "addToHashTable mp mn (Some t) (Some k) (Some v) h = Some (success, h1)"
    and cpv: "\<forall>x y. copyValue t x = Some y \<longrightarrow> y = x"
    and eqk: "\<forall>k'. copyKey t k = Some k' \<longrightarrow> equalKey t k' k"
  shows "lookupInHashTable (Some t) (Some k) h1 = Some (Some v) \<and>
         (\<forall>mp' mn' v2. addToHashTable mp' mn' (Some t) (Some k) (Some v2) h1 =
                          Some (element_exist, h1))"
proof -
  from add obtain b where "bucket_of t k = Some b"
    by (auto simp: addToHashTable_def split: option.splits)
  with bucket_of_Some [of t k b] obtain j where j: "j < length (table t)"
    and b: "bucket_of t k = Some (table t ! j)"
    by auto
  from addToHashTable_cases [OF tc b j add] obtain k' v' where
    nf: "List.find (\<lambda>p. equalKey t (kv_key p) k) (pss ! j) = None"
    and ck: "copyKey t k = Some k'" and cv: "copyValue t v = Some v'"
    and tc1: "table_contents t h1 (pss[j := pss ! j @ [pair_of t k' v']])"
    by auto
  from tc j have len: "j < length pss" by (simp add: table_contents_def)
  from cpv cv have v': "v' = v" by blast
  from eqk ck have m: "equalKey t (kv_key (pair_of t k' v')) k" by (simp add: pair_of_def)
  have f1: "List.find (\<lambda>p. equalKey t (kv_key p) k) (pss[j := pss ! j @ [pair_of t k' v']] ! j) =
              Some (pair_of t k' v')"
    using len m by (simp add: find_append_new [OF nf])
  have "lookupInHashTable (Some t) (Some k) h1 = Some (copyValue t (kv_value (pair_of t k' v')))"
    using lookupInHashTable_bucket [OF tc1 b j] f1 by simp
  then have l: "lookupInHashTable (Some t) (Some k) h1 = Some (Some v)"
    using cv v' by (simp add: pair_of_def)
  have "addToHashTable mp' mn' (Some t) (Some k) (Some v2) h1 = Some (element_exist, h1)"
    for mp' mn' v2
    using addToHashTable_char [OF tc1 b j, of mp' mn' v2] f1 by simp
  with l show ?thesis by blast
qed

text \<open>
  Claim C4 fails for a key whose hash value is negative. In the table of 13 cells that
  \<open>createHashTable\<close> returns in the empty memory, the key \<open>-1\<close> has the index \<open>-1 % 13 = -1\<close>:
  \<open>addToHashTable\<close>, \<open>removeFromHashTable\<close> and \<open>lookupInHashTable\<close> read the cell before the
  array and have no defined result, so the round trip does not yield \<open>NULL\<close>.
\<close>

theorem C4_counterexample:
  "createHashTable True True every_malloc (Some Some) (Some no_op) (Some no_op) (Some Some)
     (Some no_op) (Some no_op) (Some (=)) (Some int_hash) 13 empty_heap =
     (Some int_table, int_table_heap) \<and>
   addToHashTable True True (Some int_table) (Some (- 1)) (Some 50) int_table_heap = None \<and>
   removeFromHashTable (Some int_table) (Some (- 1)) int_table_heap = None \<and>
   lookupInHashTable (Some int_table) (Some (- 1)) int_table_heap = None"
proof -
  have am: "array_malloc True 13"
    by (simp add: array_malloc_def array_bytes_def PTRDIFF_MAX_def)
  have "\<forall>i<nat 13. every_malloc i" by (simp add: every_malloc_def)
  from createHashTable_success [OF TrueI am this, of Some no_op no_op Some no_op no_op "(=)"
      int_hash empty_heap]
  have c: "createHashTable True True every_malloc (Some Some) (Some no_op) (Some no_op)
     (Some Some) (Some no_op) (Some no_op) (Some (=)) (Some int_hash) 13 empty_heap =
     (Some int_table, int_table_heap)"
    by (simp add: int_table_def int_table_heap_def empty_heap_def)
  have b: "bucket_of int_table (- 1) = None"
    by (simp add: bucket_of_def c_rem_def table_cell_def int_table_def int_hash_def INT_MIN_def)
  from b have "addToHashTable True True (Some int_table) (Some (- 1)) (Some 50) int_table_heap = None"
    by (simp add: addToHashTable_def)
  moreover from b have "removeFromHashTable (Some int_table) (Some (- 1)) int_table_heap = None"
    by (simp add: removeFromHashTable_def)
  moreover from b have "lookupInHashTable (Some int_table) (Some (- 1)) int_table_heap = None"
    by (simp add: lookupInHashTable_def)
  ultimately show ?thesis using c by simp
qed

text \<open>
  Claim C4, amended. For a well-formed table whose cell count is positive, a key \<open>k\<close> with a
  non-negative hash value (so that its bucket index lies in the array) and at most one
  stored pair equal to \<open>k\<close> (keys are unique), with free callbacks that return and no
  bucket at the limit of the element counter: \<open>addToHashTable(t, k, v)\<close> returns (with
  whichever status and allocation outcomes), the following \<open>removeFromHashTable(t, k)\<close>
  returns, and \<open>lookupInHashTable(t, k)\<close> then returns \<open>NULL\<close>.
\<close>

theorem C4_add_remove_lookup:
  assumes tc: "table_contents t h pss"
    and size: "0 < tableSize t" and hash: "0 \<le> transIntoNumber t k"
    and uniq: "\<forall>ps\<in>set pss. length (matching t k ps) \<le> 1"
    and full: "\<forall>ps\<in>set pss. int (length ps) < INT_MAX"
    and fk: "\<forall>x w. freeKey t x w \<noteq> None" and fv: "\<forall>x w. freeValue t x w \<noteq> None"
  shows "\<exists>st h1 st2 h2.
           addToHashTable mp mn (Some t) (Some k) (Some v) h = Some (st, h1) \<and>
           removeFromHashTable (Some t) (Some k) h1 = Some (st2, h2) \<and>
           lookupInHashTable (Some t) (Some k) h2 = Some None"
proof -
  let ?P = "\<lambda>p. equalKey t (kv_key p) k"
  from tc have sz: "length (table t) = nat (tableSize t)" and len: "length pss = length (table t)"
    by (simp_all add: table_contents_def)
  from bucket_of_in_range [OF sz size hash] obtain b where "bucket_of t k = Some b" by blast
  with bucket_of_Some [of t k b] obtain j where j: "j < length (table t)"
    and b: "bucket_of t k = Some (table t ! j)"
    by auto
  from j len have jl: "j < length pss" by simp
  then have pin: "pss ! j \<in> set pss" by simp
  with full have ov: "int (length (pss ! j)) \<noteq> INT_MAX" by auto
  from pin uniq have u: "length (filter ?P (pss ! j)) \<le> 1" by (auto simp: matching_def)
  from fk have fk': "\<forall>k'. freeKey t k' (world h) \<noteq> None" by simp
  from addToHashTable_returns [OF tc b j ov fk', of mp mn v] obtain st h1 where
    add: "addToHashTable mp mn (Some t) (Some k) (Some v) h = Some (st, h1)"
    by blast
  have rem: "\<exists>st2 h2. removeFromHashTable (Some t) (Some k) h1 = Some (st2, h2) \<and>
                lookupInHashTable (Some t) (Some k) h2 = Some None"
    if tc1: "table_contents t h1 qss" and q: "List.find ?P (remove_first ?P (qss ! j)) = None"
    for qss
  proof (cases "List.find ?P (qss ! j)")
    case None
    from removeFromHashTable_absent [OF tc1 b j None]
    have r: "removeFromHashTable (Some t) (Some k) h1 = Some (no_element, h1)" .
    from lookupInHashTable_bucket [OF tc1 b j] None
    have "lookupInHashTable (Some t) (Some k) h1 = Some None" by simp
    with r show ?thesis by simp
  next
    case (Some p)
    from fk obtain w1 where w1: "freeKey t (kv_key p) (world h1) = Some w1" by fastforce
    from fv obtain w2 where w2: "freeValue t (kv_value p) w1 = Some w2" by fastforce
    from removeFromHashTable_present [OF tc1 b j Some w1 w2] obtain h2 where
      r: "removeFromHashTable (Some t) (Some k) h1 = Some (success, h2)"
      and tc2: "table_contents t h2 (qss[j := remove_first ?P (qss ! j)])"
      by blast
    from tc1 j have "j < length qss" by (simp add: table_contents_def)
    with lookupInHashTable_bucket [OF tc2 b j] q
    have "lookupInHashTable (Some t) (Some k) h2 = Some None" by simp
    with r show ?thesis by blast
  qed
  from addToHashTable_cases [OF tc b j add]
  consider (exist) "h1 = h" "List.find ?P (pss ! j) \<noteq> None"
    | (nomem) "lists h1 = lists h" "List.find ?P (pss ! j) = None"
    | (added) k' v' where "List.find ?P (pss ! j) = None"
        "table_contents t h1 (pss[j := pss ! j @ [pair_of t k' v']])"
    by (elim disjE conjE exE) simp_all
  then have "\<exists>st2 h2. removeFromHashTable (Some t) (Some k) h1 = Some (st2, h2) \<and>
                lookupInHashTable (Some t) (Some k) h2 = Some None"
  proof cases
    case exist
    from tc exist(1) have "table_contents t h1 pss" by simp
    moreover have "List.find ?P (remove_first ?P (pss ! j)) = None"
      by (rule find_remove_first_unique [OF u])
    ultimately show ?thesis by (rule rem)
  next
    case nomem
    from tc table_contents_lists [OF nomem(1), of t pss] have "table_contents t h1 pss" by simp
    moreover have "List.find ?P (remove_first ?P (pss ! j)) = None"
      using nomem(2) by (simp add: find_None_remove_first)
    ultimately show ?thesis by (rule rem)
  next
    case added
    have "List.find ?P (remove_first ?P (pss[j := pss ! j @ [pair_of t k' v']] ! j)) = None"
    proof (cases "?P (pair_of t k' v')")
      case True
      with added(1) jl show ?thesis by (simp add: remove_first_append_new)
    next
      case False
      with added(1) have "List.find ?P (pss ! j @ [pair_of t k' v']) = None"
        by (simp add: find_append_new)
      with jl show ?thesis by (simp add: find_None_remove_first)
    qed
    with added(2) show ?thesis by (rule rem)
  qed
  with add show ?thesis by blast
qed

theorem C2_witness:
  "table_contents nat_table nat_table_heap (replicate 13 []) \<and>
   (\<exists>h1. addToHashTable True True (Some nat_table) (Some 5) (Some 50) nat_table_heap =
            Some (success, h1) \<and>
         lookupInHashTable (Some nat_table) (Some 5) h1 = Some (Some 50) \<and>
         addToHashTable True True (Some nat_table) (Some 5) (Some 60) h1 =
            Some (element_exist, h1))"
proof -
  note tc = table_contents_nat_table
  have b: "bucket_of nat_table 5 = Some (table nat_table ! 5)"
    by (rule bucket_of_nat_table) simp
  have j: "5 < length (table nat_table)" by (simp add: nat_table_def)
  have nf: "List.find (\<lambda>p. equalKey nat_table (kv_key p) 5) (replicate 13 [] ! 5) = None"
    by simp
  have ck: "copyKey nat_table 5 = Some 5" and cv: "copyValue nat_table 50 = Some 50"
    by (simp_all add: nat_table_def)
  have ov: "int (length (replicate 13 [] ! 5 :: (nat, nat, unit) KeyValuePair_s list)) \<noteq> INT_MAX"
    by (simp add: INT_MAX_def)
  from addToHashTable_success [OF tc b j nf ck cv ov] obtain h1 where
    add: "addToHashTable True True (Some nat_table) (Some 5) (Some 50) nat_table_heap =
            Some (success, h1)"
    by blast
  have cpv: "\<forall>x y. copyValue nat_table x = Some y \<longrightarrow> y = x" by (simp add: nat_table_def)
  have eqk: "\<forall>k'. copyKey nat_table 5 = Some k' \<longrightarrow> equalKey nat_table k' 5"
    by (simp add: nat_table_def)
  from C2_add_then_lookup [OF tc add cpv eqk] add tc show ?thesis by blast
qed

theorem C4_witness:
  "table_contents nat_table nat_table_heap (replicate 13 []) \<and>
   0 < tableSize nat_table \<and> 0 \<le> transIntoNumber nat_table 5 \<and>
   (\<exists>st h1 st2 h2.
      addToHashTable True True (Some nat_table) (Some 5) (Some 50) nat_table_heap = Some (st, h1) \<and>
      removeFromHashTable (Some nat_table) (Some 5) h1 = Some (st2, h2) \<and>
      lookupInHashTable (Some nat_table) (Some 5) h2 = Some None)"
proof -
  note tc = table_contents_nat_table
  have size: "0 < tableSize nat_table" and hash: "0 \<le> transIntoNumber nat_table 5"
    by (simp_all add: nat_table_def)
  have uniq: "\<forall>ps\<in>set (replicate 13 []). length (matching nat_table 5 ps) \<le> 1"
    by (simp add: matching_def)
  have full: "\<forall>ps\<in>set (replicate 13 [] :: (nat, nat, unit) KeyValuePair_s list list).
                int (length ps) < INT_MAX"
    by (simp add: INT_MAX_def)
  have fk: "\<forall>x w. freeKey nat_table x w \<noteq> None" and fv: "\<forall>x w. freeValue nat_table x w \<noteq> None"
    by (simp_all add: nat_table_def)
  from C4_add_remove_lookup [OF tc size hash uniq full fk fv, of True True 50] tc size hash
  show ?thesis by blast
qed

text \<open>
  Claim C10 fails for a negative cell count: the request for the array of \<open>-3\<close> list
  handles wraps around to almost \<open>2^64\<close> bytes, the allocation fails and
  \<open>createHashTable\<close> returns \<open>NULL\<close>, not a table whose \<open>tableSize\<close> is \<open>-3\<close>.
\<close>

theorem C10_counterexample:
  "createHashTable True True every_malloc (Some Some) (Some no_op) (Some no_op) (Some Some)
     (Some no_op) (Some no_op) (Some (=)) (Some int_hash) (- 3) empty_heap =
   (None :: (int, nat, unit) hashTable_s option, empty_heap)"
  by (simp add: createHashTable_def array_malloc_def array_bytes_def PTRDIFF_MAX_def)

text \<open>
  Claim C10, amended. \<open>createHashTable\<close> does not look at the requested cell count. With
  non-null callbacks and successful allocations it returns, for every count from \<open>0\<close> to
  \<open>INT_MAX\<close>, a table whose \<open>tableSize\<close> is the requested number; for every negative count
  the allocation of the array cannot succeed and it returns \<open>NULL\<close>, leaving the memory
  as it was. The three operations index the array with \<open>transIntoNumber(key) % tableSize\<close>:
  the index lies in \<open>[0, tableSize - 1]\<close> when \<open>tableSize \<ge> 1\<close> and the hash value is not
  negative; with \<open>tableSize = 0\<close> the remainder is undefined, and with a negative hash value
  that \<open>tableSize\<close> does not divide the index is negative, so that the operations read
  outside the array: none of them has a defined result.
\<close>

theorem C10_no_validation:
  "(0 \<le> n \<and> n \<le> INT_MAX \<and> m_struct \<and> m_array \<and> (\<forall>i<nat n. m_list i) \<longrightarrow>
      (\<exists>t' h'. createHashTable m_struct m_array m_list (Some ck) (Some fk) (Some pk) (Some cv)
                 (Some fv) (Some pv) (Some ek) (Some tr) n h0 = (Some t', h') \<and>
               tableSize t' = n \<and> length (table t') = nat n)) \<and>
   (INT_MIN \<le> n \<and> n < 0 \<longrightarrow>
      createHashTable m_struct m_array m_list (Some ck) (Some fk) (Some pk) (Some cv)
        (Some fv) (Some pv) (Some ek) (Some tr) n h0 = (None, h0)) \<and>
   (0 < tableSize t \<and> 0 \<le> transIntoNumber t k \<longrightarrow>
      (\<exists>i. c_rem (transIntoNumber t k) (tableSize t) = Some i \<and> 0 \<le> i \<and> i < tableSize t)) \<and>
   (tableSize t = 0 \<longrightarrow>
      addToHashTable mp mn (Some t) (Some k) (Some v) h = None \<and>
      lookupInHashTable (Some t) (Some k) h = None \<and>
      removeFromHashTable (Some t) (Some k) h = None) \<and>
   (0 < tableSize t \<and> transIntoNumber t k < 0 \<and> \<not> tableSize t dvd transIntoNumber t k \<longrightarrow>
      (\<exists>i. c_rem (transIntoNumber t k) (tableSize t) = Some i \<and> i < 0) \<and>
      addToHashTable mp mn (Some t) (Some k) (Some v) h = None \<and>
      lookupInHashTable (Some t) (Some k) h = None \<and>
      removeFromHashTable (Some t) (Some k) h = None)"
proof (intro conjI impI)
  assume "0 \<le> n \<and> n \<le> INT_MAX \<and> m_struct \<and> m_array \<and> (\<forall>i<nat n. m_list i)"
  then have n: "0 \<le> n" "n \<le> INT_MAX" and a: "m_struct" "m_array" "\<forall>i<nat n. m_list i"
    by simp_all
  from a(2) have am: "array_malloc m_array n" by (simp add: array_malloc_nonneg [OF n])
  show "\<exists>t' h'. createHashTable m_struct m_array m_list (Some ck) (Some fk) (Some pk) (Some cv)
                 (Some fv) (Some pv) (Some ek) (Some tr) n h0 = (Some t', h') \<and>
               tableSize t' = n \<and> length (table t') = nat n"
    unfolding createHashTable_success [OF a(1) am a(3)] by simp
next
  assume "INT_MIN \<le> n \<and> n < 0"
  then have "\<not> array_malloc m_array n" by (simp add: array_malloc_negative)
  then show "createHashTable m_struct m_array m_list (Some ck) (Some fk) (Some pk) (Some cv)
        (Some fv) (Some pv) (Some ek) (Some tr) n h0 = (None, h0)"
    by (simp add: createHashTable_def)
next
  assume "0 < tableSize t \<and> 0 \<le> transIntoNumber t k"
  then show "\<exists>i. c_rem (transIntoNumber t k) (tableSize t) = Some i \<and> 0 \<le> i \<and> i < tableSize t"
    by (simp add: c_rem_in_range)
next
  assume z: "tableSize t = 0"
  then have b: "bucket_of t k = None" by (simp add: bucket_of_def c_rem_def)
  from b show "addToHashTable mp mn (Some t) (Some k) (Some v) h = None"
    by (simp add: addToHashTable_def)
  from b show "lookupInHashTable (Some t) (Some k) h = None"
    by (simp add: lookupInHashTable_def)
  from b show "removeFromHashTable (Some t) (Some k) h = None"
    by (simp add: removeFromHashTable_def)
next
  assume a: "0 < tableSize t \<and> transIntoNumber t k < 0 \<and> \<not> tableSize t dvd transIntoNumber t k"
  define x where "x = transIntoNumber t k"
  define m where "m = tableSize t"
  from a have m: "0 < m" and x: "x < 0" and nd: "\<not> m dvd x" by (simp_all add: x_def m_def)
  have c: "c_rem x m = Some (- (\<bar>x\<bar> mod m))"
    using m x by (simp add: c_rem_def sgn_if)
  from nd have "\<not> m dvd \<bar>x\<bar>" by simp
  then have "\<bar>x\<bar> mod m \<noteq> 0" by (simp add: dvd_eq_mod_eq_0)
  moreover have "0 \<le> \<bar>x\<bar> mod m" using m by simp
  ultimately have neg: "- (\<bar>x\<bar> mod m) < 0" by linarith
  with c show "\<exists>i. c_rem (transIntoNumber t k) (tableSize t) = Some i \<and> i < 0"
    by (simp add: x_def m_def)
  from c neg have b: "bucket_of t k = None"
    by (simp add: bucket_of_def table_cell_def x_def m_def)
  from b show "addToHashTable mp mn (Some t) (Some k) (Some v) h = None"
    by (simp add: addToHashTable_def)
  from b show "lookupInHashTable (Some t) (Some k) h = None"
    by (simp add: lookupInHashTable_def)
  from b show "removeFromHashTable (Some t) (Some k) h = None"
    by (simp add: removeFromHashTable_def)
qed

theorem C10_witness:
  "(\<exists>t' h'. createHashTable True True every_malloc (Some Some) (Some no_op) (Some no_op)
              (Some Some) (Some no_op) (Some no_op) (Some (=)) (Some int_hash) 0 int_table_heap =
              (Some t', h') \<and>
            tableSize t' = 0 \<and> length (table t') = nat 0) \<and>
   createHashTable True True every_malloc (Some Some) (Some no_op) (Some no_op)
     (Some Some) (Some no_op) (Some no_op) (Some (=)) (Some int_hash) (- 3) int_table_heap =
     (None, int_table_heap) \<and>
   (\<exists>i. c_rem (transIntoNumber int_table 20) (tableSize int_table) = Some i \<and>
        0 \<le> i \<and> i < tableSize int_table) \<and>
   lookupInHashTable (Some (int_table\<lparr>tableSize := 0\<rparr>)) (Some 5) int_table_heap = None \<and>
   (\<exists>i. c_rem (transIntoNumber int_table (- 1)) (tableSize int_table) = Some i \<and> i < 0) \<and>
   addToHashTable True True (Some int_table) (Some (- 1)) (Some 2) int_table_heap = None"
proof -
  have a: "0 \<le> (0::int) \<and> (0::int) \<le> INT_MAX \<and> True \<and> True \<and> (\<forall>i<nat 0. every_malloc i)"
    by (simp add: INT_MAX_def)
  have a': "INT_MIN \<le> - 3 \<and> (- 3 :: int) < 0" by (simp add: INT_MIN_def)
  have b: "0 < tableSize int_table \<and> 0 \<le> transIntoNumber int_table 20"
    by (simp add: int_table_def int_hash_def)
  have c: "tableSize (int_table\<lparr>tableSize := 0\<rparr>) = 0" by simp
  have d: "0 < tableSize int_table \<and> transIntoNumber int_table (- 1) < 0 \<and>
           \<not> tableSize int_table dvd transIntoNumber int_table (- 1)"
    by (simp add: int_table_def int_hash_def)
  from C10_no_validation [of 0 True True every_malloc Some no_op no_op Some no_op no_op "(=)"
      int_hash int_table_heap int_table 20] a b
  have 1: "\<exists>t' h'. createHashTable True True every_malloc (Some Some) (Some no_op) (Some no_op)
              (Some Some) (Some no_op) (Some no_op) (Some (=)) (Some int_hash) 0 int_table_heap =
              (Some t', h') \<and>
            tableSize t' = 0 \<and> length (table t') = nat 0"
    and 2: "\<exists>i. c_rem (transIntoNumber int_table 20) (tableSize int_table) = Some i \<and>
        0 \<le> i \<and> i < tableSize int_table"
    by blast+
  from C10_no_validation [of "- 3" True True every_malloc Some no_op no_op Some no_op no_op "(=)"
      int_hash int_table_heap int_table 20 True True 2 int_table_heap] a'
  have 6: "createHashTable True True every_malloc (Some Some) (Some no_op) (Some no_op)
     (Some Some) (Some no_op) (Some no_op) (Some (=)) (Some int_hash) (- 3) int_table_heap =
     (None, int_table_heap)"
    by blast
  from C10_no_validation [where t = "int_table\<lparr>tableSize := 0\<rparr>" and k = 5
      and h = int_table_heap] c
  have 3: "lookupInHashTable (Some (int_table\<lparr>tableSize := 0\<rparr>)) (Some 5) int_table_heap = None"
    by blast
  from C10_no_validation [where t = int_table and k = "- 1"
      and h = int_table_heap and mp = True and mn = True and v = 2] d
  have 4: "\<exists>i. c_rem (transIntoNumber int_table (- 1)) (tableSize int_table) = Some i \<and> i < 0"
    and 5: "addToHashTable True True (Some int_table) (Some (- 1)) (Some 2) int_table_heap = None"
    by blast+
  from 1 6 2 3 4 5 show ?thesis by blast
qed

text \<open>
  Claim C5 against the code: a table of three cells is requested and the allocation of
  the list of cell 1 fails. \<open>createHashTable\<close> returns \<open>NULL\<close>, but the list created
  for cell 0 is still allocated in the memory it returns: the code frees the array and the
  table structure only.
\<close>

theorem C5_createHashTable_keeps_lists:
  "createHashTable True True (\<lambda>i. i \<noteq> 1) (Some Some) (Some (\<lambda>x w. Some w))
     (Some (\<lambda>x w. Some w)) (Some Some) (Some (\<lambda>x w. Some w)) (Some (\<lambda>x w. Some w))
     (Some (=)) (Some int) 3 \<lparr>lists = [], world = ()\<rparr> =
   (None :: (nat, nat, unit) hashTable_s option,
    \<lparr>lists = [Some empty_bucket], world = ()\<rparr>)"
proof -
  have "createHashTable_loop (\<lambda>i. i \<noteq> 1) 3 0 []
          (\<lparr>lists = [], world = ()\<rparr> :: (nat, nat, unit) hheap) =
        (None, \<lparr>lists = [], world = ()\<rparr>\<lparr>lists := lists \<lparr>lists = [], world = ()\<rparr> @
                 replicate (1 - 0) (Some empty_bucket)\<rparr>)"
    by (rule createHashTable_loop_failure) simp_all
  then show ?thesis
    by (simp add: createHashTable_def array_malloc_def array_bytes_def PTRDIFF_MAX_def)
qed

section \<open>The multi-value table\<close>

subsection \<open>The list operations, read from their result\<close>





subsection \<open>Buckets without a repeated key\<close>





subsection \<open>The pairs of all buckets\<close>







subsection \<open>Lists of values that an operation leaves alone\<close>


lemma nonempty_list_live: "nonempty_list vh a \<Longrightarrow> a < length (lists vh)"
  by (auto simp: nonempty_list_def dest: load_Some_length)

lemma nonempty_list_world: "nonempty_list (vh\<lparr>world := u\<rparr>) a = nonempty_list vh a"
  by (simp add: nonempty_list_def)



lemma nonempty_list_append_old:
  assumes "nonempty_list vh a"
  shows "nonempty_list (vh\<lparr>lists := lists vh @ [x]\<rparr>) a"
proof -
  from nonempty_list_live [OF assms] have "load (lists vh @ [x]) a = load (lists vh) a"
    by (rule load_append_old)
  with assms show ?thesis by (simp add: nonempty_list_def)
qed

lemma load_fresh_update:
  "a < length ls \<Longrightarrow> load ((ls @ [x])[length ls := y]) a = load ls a"
  by (simp add: load_def nth_append)

lemma load_fresh_update_same:
  "load ((ls @ [x])[length ls := y]) (length ls) = y"
  by (simp add: load_def)

subsection \<open>The underlying table\<close>





subsection \<open>Insertion keeps the invariant\<close>









subsection \<open>Removal keeps the invariant\<close>






subsection \<open>Creation and runs\<close>











section \<open>Claim C3: the values of a key are never an empty list\<close>






section \<open>Null arguments\<close>

lemma null_createLinkedList:
  "createLinkedList m None ff pf ef h = (None, h)"
  "createLinkedList m cf None pf ef h = (None, h)"
  "createLinkedList m cf ff None ef h = (None, h)"
  "createLinkedList m cf ff pf None h = (None, h)"
  by (simp_all add: createLinkedList_def split: option.splits)

lemma null_list_operations:
  "destroyList None h = Some (Invalid_input, h)"
  "appendNode m None e h = Some (Invalid_input, h)"
  "appendNode m l None h = Some (Invalid_input, h)"
  "deleteNode None b h = Some (Invalid_input, h)"
  "deleteNode l None h = Some (Invalid_input, h)"
  "displayList None h = Some (Invalid_input, h)"
  "getDataByIndex None i h = Some None"
  "getLengthList None h = Some (- 1)"
  "searchByKeyInList None k h = Some None"
  "searchByKeyInList l None h = Some None"
  by (simp_all add: destroyList_def appendNode_def deleteNode_def displayList_def
      getDataByIndex_def getLengthList_def searchByKeyInList_def split: option.splits)

lemma null_createKeyValuePair:
  "createKeyValuePair m None val ck fk pk cv fv pv ek w = Some (None, w)"
  "createKeyValuePair m key None ck fk pk cv fv pv ek w = Some (None, w)"
  "createKeyValuePair m key val None fk pk cv fv pv ek w = Some (None, w)"
  "createKeyValuePair m key val ck None pk cv fv pv ek w = Some (None, w)"
  "createKeyValuePair m key val ck fk None cv fv pv ek w = Some (None, w)"
  "createKeyValuePair m key val ck fk pk None fv pv ek w = Some (None, w)"
  "createKeyValuePair m key val ck fk pk cv None pv ek w = Some (None, w)"
  "createKeyValuePair m key val ck fk pk cv fv None ek w = Some (None, w)"
  "createKeyValuePair m key val ck fk pk cv fv pv None w = Some (None, w)"
  by (simp_all add: createKeyValuePair_def split: option.splits)

lemma null_pair_operations:
  "destroyKeyValuePair None w = Some (Invalid_input, w)"
  "displayValue None w = Some (Invalid_input, w)"
  "displayKey None w = Some (Invalid_input, w)"
  "getValue None = None"
  "getKey None = None"
  "isEqualKey None k = False"
  "isEqualKey p None = False"
  by (simp_all add: destroyKeyValuePair_def displayValue_def displayKey_def getValue_def
      getKey_def isEqualKey_def split: option.splits)

lemma null_createHashTable:
  "createHashTable ms ma ml None fk pk cv fv pv ek tr n h = (None, h)"
  "createHashTable ms ma ml ck None pk cv fv pv ek tr n h = (None, h)"
  "createHashTable ms ma ml ck fk None cv fv pv ek tr n h = (None, h)"
  "createHashTable ms ma ml ck fk pk None fv pv ek tr n h = (None, h)"
  "createHashTable ms ma ml ck fk pk cv None pv ek tr n h = (None, h)"
  "createHashTable ms ma ml ck fk pk cv fv None ek tr n h = (None, h)"
  "createHashTable ms ma ml ck fk pk cv fv pv None tr n h = (None, h)"
  "createHashTable ms ma ml ck fk pk cv fv pv ek None n h = (None, h)"
  by (simp_all add: createHashTable_def split: option.splits)

lemma null_hash_operations:
  "destroyHashTable None h = Some (Invalid_input, h)"
  "addToHashTable mp mn None k v h = Some (Invalid_input, h)"
  "addToHashTable mp mn t None v h = Some (Invalid_input, h)"
  "addToHashTable mp mn t k None h = Some (Invalid_input, h)"
  "lookupInHashTable None k h = Some None"
  "lookupInHashTable t None h = Some None"
  "removeFromHashTable None k h = Some (Invalid_input, h)"
  "removeFromHashTable t None h = Some (Invalid_input, h)"
  "displayHashElements None h = Some (Invalid_input, h)"
  by (simp_all add: destroyHashTable_def addToHashTable_def lookupInHashTable_def
      removeFromHashTable_def displayHashElements_def split: option.splits)

lemma null_createMultiValueHashTable:
  "createMultiValueHashTable mm ms ma ml None fk pk cv fv pv ek ev tr n g = (None, g)"
  "createMultiValueHashTable mm ms ma ml ck None pk cv fv pv ek ev tr n g = (None, g)"
  "createMultiValueHashTable mm ms ma ml ck fk None cv fv pv ek ev tr n g = (None, g)"
  "createMultiValueHashTable mm ms ma ml ck fk pk None fv pv ek ev tr n g = (None, g)"
  "createMultiValueHashTable mm ms ma ml ck fk pk cv None pv ek ev tr n g = (None, g)"
  "createMultiValueHashTable mm ms ma ml ck fk pk cv fv None ek ev tr n g = (None, g)"
  "createMultiValueHashTable mm ms ma ml ck fk pk cv fv pv None ev tr n g = (None, g)"
  "createMultiValueHashTable mm ms ma ml ck fk pk cv fv pv ek None tr n g = (None, g)"
  "createMultiValueHashTable mm ms ma ml ck fk pk cv fv pv ek ev None n g = (None, g)"
  by (simp_all add: createMultiValueHashTable_def split: option.splits)

lemma null_multi_operations:
  "destroyMultiValueHashTable None g = Some (Invalid_input, g)"
  "addToMultiValueHashTable m1 m2 m3 m4 None k v g = Some (Invalid_input, g)"
  "addToMultiValueHashTable m1 m2 m3 m4 mt None v g = Some (Invalid_input, g)"
  "addToMultiValueHashTable m1 m2 m3 m4 mt k None g = Some (Invalid_input, g)"
  "lookupInMultiValueHashTable None k g = Some None"
  "lookupInMultiValueHashTable mt None g = Some None"
  "removeFromMultiValueHashTable None k v g = Some (Invalid_input, g)"
  "removeFromMultiValueHashTable mt None v g = Some (Invalid_input, g)"
  "removeFromMultiValueHashTable mt k None g = Some (Invalid_input, g)"
  "displayMultiValueHashElementsByKey None k g = Some (Invalid_input, g)"
  "displayMultiValueHashElementsByKey mt None g = Some (Invalid_input, g)"
  by (simp_all add: destroyMultiValueHashTable_def addToMultiValueHashTable_def
      lookupInMultiValueHashTable_def removeFromMultiValueHashTable_def
      displayMultiValueHashElementsByKey_def split: option.splits)

text \<open>
  Claim C9. Every operation of the list, pair, hash table and multi-value table modules
  that is given a null pointer for a required argument returns at once, with the memory
  it was given unchanged: status-returning operations return \<open>Invalid_input\<close>;
  pointer-returning operations and the four constructors (also for a null callback)
  return \<open>NULL\<close>; \<open>getLengthList\<close>, which returns an \<open>int\<close>, returns \<open>-1\<close>, and
  \<open>isEqualKey\<close>, which returns a \<open>bool\<close>, returns \<open>false\<close>.
\<close>

theorem C9_null_arguments:
  "createLinkedList m None ff pf ef h = (None, h) \<and>
   createLinkedList m cf None pf ef h = (None, h) \<and>
   createLinkedList m cf ff None ef h = (None, h) \<and>
   createLinkedList m cf ff pf None h = (None, h) \<and>
   destroyList None h = Some (Invalid_input, h) \<and>
   appendNode m None e h = Some (Invalid_input, h) \<and>
   appendNode m l None h = Some (Invalid_input, h) \<and>
   deleteNode None b h = Some (Invalid_input, h) \<and>
   deleteNode l None h = Some (Invalid_input, h) \<and>
   displayList None h = Some (Invalid_input, h) \<and>
   getDataByIndex None i h = Some None \<and>
   getLengthList None h = Some (- 1) \<and>
   searchByKeyInList None k h = Some None \<and>
   searchByKeyInList l None h = Some None \<and>
   createKeyValuePair m1 None val ck1 fk1 pk1 cv1 fv1 pv1 ek1 w = Some (None, w) \<and>
   createKeyValuePair m1 key None ck1 fk1 pk1 cv1 fv1 pv1 ek1 w = Some (None, w) \<and>
   createKeyValuePair m1 key val None fk1 pk1 cv1 fv1 pv1 ek1 w = Some (None, w) \<and>
   createKeyValuePair m1 key val ck1 None pk1 cv1 fv1 pv1 ek1 w = Some (None, w) \<and>
   createKeyValuePair m1 key val ck1 fk1 None cv1 fv1 pv1 ek1 w = Some (None, w) \<and>
   createKeyValuePair m1 key val ck1 fk1 pk1 None fv1 pv1 ek1 w = Some (None, w) \<and>
   createKeyValuePair m1 key val ck1 fk1 pk1 cv1 None pv1 ek1 w = Some (None, w) \<and>
   createKeyValuePair m1 key val ck1 fk1 pk1 cv1 fv1 None ek1 w = Some (None, w) \<and>
   createKeyValuePair m1 key val ck1 fk1 pk1 cv1 fv1 pv1 None w = Some (None, w) \<and>
   destroyKeyValuePair None w = Some (Invalid_input, w) \<and>
   displayValue None w = Some (Invalid_input, w) \<and>
   displayKey None w = Some (Invalid_input, w) \<and>
   getValue None = None \<and>
   getKey None = None \<and>
   isEqualKey None key = False \<and>
   isEqualKey kvPair None = False \<and>
   createHashTable ms ma ml None fk2 pk2 cv2 fv2 pv2 ek2 tr2 n2 hh = (None, hh) \<and>
   createHashTable ms ma ml ck2 None pk2 cv2 fv2 pv2 ek2 tr2 n2 hh = (None, hh) \<and>
   createHashTable ms ma ml ck2 fk2 None cv2 fv2 pv2 ek2 tr2 n2 hh = (None, hh) \<and>
   createHashTable ms ma ml ck2 fk2 pk2 None fv2 pv2 ek2 tr2 n2 hh = (None, hh) \<and>
   createHashTable ms ma ml ck2 fk2 pk2 cv2 None pv2 ek2 tr2 n2 hh = (None, hh) \<and>
   createHashTable ms ma ml ck2 fk2 pk2 cv2 fv2 None ek2 tr2 n2 hh = (None, hh) \<and>
   createHashTable ms ma ml ck2 fk2 pk2 cv2 fv2 pv2 None tr2 n2 hh = (None, hh) \<and>
   createHashTable ms ma ml ck2 fk2 pk2 cv2 fv2 pv2 ek2 None n2 hh = (None, hh) \<and>
   destroyHashTable None hh = Some (Invalid_input, hh) \<and>
   addToHashTable mp mn None hkey hval hh = Some (Invalid_input, hh) \<and>
   addToHashTable mp mn ht None hval hh = Some (Invalid_input, hh) \<and>
   addToHashTable mp mn ht hkey None hh = Some (Invalid_input, hh) \<and>
   lookupInHashTable None hkey hh = Some None \<and>
   lookupInHashTable ht None hh = Some None \<and>
   removeFromHashTable None hkey hh = Some (Invalid_input, hh) \<and>
   removeFromHashTable ht None hh = Some (Invalid_input, hh) \<and>
   displayHashElements None hh = Some (Invalid_input, hh) \<and>
   createMultiValueHashTable mm ms ma ml None fk3 pk3 cv3 fv3 pv3 ek3 ev3 tr3 n3 g = (None, g) \<and>
   createMultiValueHashTable mm ms ma ml ck3 None pk3 cv3 fv3 pv3 ek3 ev3 tr3 n3 g = (None, g) \<and>
   createMultiValueHashTable mm ms ma ml ck3 fk3 None cv3 fv3 pv3 ek3 ev3 tr3 n3 g = (None, g) \<and>
   createMultiValueHashTable mm ms ma ml ck3 fk3 pk3 None fv3 pv3 ek3 ev3 tr3 n3 g = (None, g) \<and>
   createMultiValueHashTable mm ms ma ml ck3 fk3 pk3 cv3 None pv3 ek3 ev3 tr3 n3 g = (None, g) \<and>
   createMultiValueHashTable mm ms ma ml ck3 fk3 pk3 cv3 fv3 None ek3 ev3 tr3 n3 g = (None, g) \<and>
   createMultiValueHashTable mm ms ma ml ck3 fk3 pk3 cv3 fv3 pv3 None ev3 tr3 n3 g = (None, g) \<and>
   createMultiValueHashTable mm ms ma ml ck3 fk3 pk3 cv3 fv3 pv3 ek3 None tr3 n3 g = (None, g) \<and>
   createMultiValueHashTable mm ms ma ml ck3 fk3 pk3 cv3 fv3 pv3 ek3 ev3 None n3 g = (None, g) \<and>
   destroyMultiValueHashTable None g = Some (Invalid_input, g) \<and>
   addToMultiValueHashTable m1 m2 m3 m4 None mkey mval g = Some (Invalid_input, g) \<and>
   addToMultiValueHashTable m1 m2 m3 m4 mt None mval g = Some (Invalid_input, g) \<and>
   addToMultiValueHashTable m1 m2 m3 m4 mt mkey None g = Some (Invalid_input, g) \<and>
   lookupInMultiValueHashTable None mkey g = Some None \<and>
   lookupInMultiValueHashTable mt None g = Some None \<and>
   removeFromMultiValueHashTable None mkey mval g = Some (Invalid_input, g) \<and>
   removeFromMultiValueHashTable mt None mval g = Some (Invalid_input, g) \<and>
   removeFromMultiValueHashTable mt mkey None g = Some (Invalid_input, g) \<and>
   displayMultiValueHashElementsByKey None mkey g = Some (Invalid_input, g) \<and>
   displayMultiValueHashElementsByKey mt None g = Some (Invalid_input, g)"
  by (simp only: null_createLinkedList null_list_operations null_createKeyValuePair null_pair_operations null_createHashTable null_hash_operations null_createMultiValueHashTable null_multi_operations simp_thms)

end
